theory Spec2Isabelle
  imports Main
begin

section \<open>Regular expressions as the cluster uses them\<close>

text \<open>
  The cluster turns a pool name or a wildcard string into a regular expression with
  \<^verbatim>\<open>new RegExp(source)\<close> and asks \<^verbatim>\<open>regex.test(pool.name)\<close>. Both are
  built into the language, not part of the repository. They are modelled for the part of
  the pattern language whose reading does not depend on the engine: ordinary characters,
  the dot, and the quantifiers \<^verbatim>\<open>*\<close>, \<^verbatim>\<open>+\<close>, \<^verbatim>\<open>?\<close> with their lazy
  forms. A source that contains any other syntax character
  (the backslash and \<^verbatim>\<open>^ $ ( ) [ ] { } |\<close>) is answered with the error class
  \<open>OutsideFragment\<close>: the model makes no statement about it.

  A regular expression object is modelled without flags, so \<^verbatim>\<open>test\<close> is
  case-sensitive, starts at index 0 and keeps no state between calls.
\<close>

datatype rx =
    Zero
  | One
  | Chr char
  | Dot
  | Alt rx rx
  | Seq rx rx
  | Star rx

datatype error_class =
    MegaClusterError
  | ShutdownError
  | CollaboratorError
  | SyntaxError
  | TypeError
  | OutsideFragment

text \<open>An error is its class and its message, as \<^verbatim>\<open>e.message\<close> reads it.\<close>

datatype error = Error error_class string

fun message :: "error \<Rightarrow> string" where
  "message (Error k m) = m"

fun nullable :: "rx \<Rightarrow> bool" where
  "nullable Zero = False"
| "nullable One = True"
| "nullable (Chr c) = False"
| "nullable Dot = False"
| "nullable (Alt r s) = (nullable r \<or> nullable s)"
| "nullable (Seq r s) = (nullable r \<and> nullable s)"
| "nullable (Star r) = True"

text \<open>Without the \<^verbatim>\<open>s\<close> flag the dot matches every character but a line terminator.\<close>

definition line_terminator :: "char \<Rightarrow> bool" where
  "line_terminator c = (c = CHR 0x0A \<or> c = CHR 0x0D)"

fun deriv :: "char \<Rightarrow> rx \<Rightarrow> rx" where
  "deriv c Zero = Zero"
| "deriv c One = Zero"
| "deriv c (Chr d) = (if c = d then One else Zero)"
| "deriv c Dot = (if line_terminator c then Zero else One)"
| "deriv c (Alt r s) = Alt (deriv c r) (deriv c s)"
| "deriv c (Seq r s) =
     (if nullable r then Alt (Seq (deriv c r) s) (deriv c s) else Seq (deriv c r) s)"
| "deriv c (Star r) = Seq (deriv c r) (Star r)"

text \<open>Some prefix of the input is in the language of the expression.\<close>

fun matches_prefix :: "rx \<Rightarrow> string \<Rightarrow> bool" where
  "matches_prefix r [] = nullable r"
| "matches_prefix r (c # cs) = (nullable r \<or> matches_prefix (deriv c r) cs)"

text \<open>
  \<^verbatim>\<open>regex.test(s)\<close>: the search tries every start position from the left, so the
  expression is unanchored.
\<close>

fun rx_test :: "rx \<Rightarrow> string \<Rightarrow> bool" where
  "rx_test r [] = matches_prefix r []"
| "rx_test r (c # cs) = (matches_prefix r (c # cs) \<or> rx_test r cs)"

text \<open>
  What an expression means: the set of strings it matches as a whole. The matcher above
  is checked against this meaning in the lemmas below.
\<close>

definition conc :: "string set \<Rightarrow> string set \<Rightarrow> string set" where
  "conc A B = {u @ v | u v. u \<in> A \<and> v \<in> B}"

inductive_set star :: "string set \<Rightarrow> string set" for A :: "string set" where
  star_empty: "[] \<in> star A"
| star_step: "u \<in> A \<Longrightarrow> v \<in> star A \<Longrightarrow> u @ v \<in> star A"

fun lang :: "rx \<Rightarrow> string set" where
  "lang Zero = {}"
| "lang One = {[]}"
| "lang (Chr c) = {[c]}"
| "lang Dot = {[c] | c. \<not> line_terminator c}"
| "lang (Alt r s) = lang r \<union> lang s"
| "lang (Seq r s) = conc (lang r) (lang s)"
| "lang (Star r) = star (lang r)"

definition quantifier_char :: "char \<Rightarrow> bool" where
  "quantifier_char c = (c = CHR ''*'' \<or> c = CHR ''+'' \<or> c = CHR ''?'')"

definition unmodelled_char :: "char \<Rightarrow> bool" where
  "unmodelled_char c =
     (c = CHR ''^'' \<or> c = CHR ''$'' \<or> c = CHR 0x5C \<or> c = CHR ''('' \<or> c = CHR '')'' \<or>
      c = CHR ''['' \<or> c = CHR '']'' \<or> c = CHR ''{'' \<or> c = CHR ''}'' \<or> c = CHR ''|'')"

fun quantify :: "char \<Rightarrow> rx \<Rightarrow> rx" where
  "quantify q a =
     (if q = CHR ''*'' then Star a
      else if q = CHR ''+'' then Seq a (Star a)
      else Alt One a)"

definition atom :: "char \<Rightarrow> rx" where
  "atom c = (if c = CHR ''.'' then Dot else Chr c)"

text \<open>
  What the parser has just read: nothing that a quantifier could repeat, an atom, or an
  atom with its quantifier (after which only the lazy mark \<^verbatim>\<open>?\<close> may follow).
\<close>

datatype pstate = NoAtom | Atom rx | Quantified rx

definition nothing_to_repeat :: error where
  "nothing_to_repeat = Error SyntaxError ''Invalid regular expression: Nothing to repeat''"

fun then_rx :: "rx \<Rightarrow> error + rx \<Rightarrow> error + rx" where
  "then_rx t (Inl e) = Inl e"
| "then_rx t (Inr r) = Inr (Seq t r)"

fun parse_terms :: "pstate \<Rightarrow> string \<Rightarrow> error + rx" where
  "parse_terms NoAtom [] = Inr One"
| "parse_terms (Atom a) [] = Inr a"
| "parse_terms (Quantified t) [] = Inr t"
| "parse_terms NoAtom (c # cs) =
     (if quantifier_char c then Inl nothing_to_repeat
      else parse_terms (Atom (atom c)) cs)"
| "parse_terms (Atom a) (c # cs) =
     (if quantifier_char c then parse_terms (Quantified (quantify c a)) cs
      else then_rx a (parse_terms (Atom (atom c)) cs))"
| "parse_terms (Quantified t) (c # cs) =
     (if c = CHR ''?'' then then_rx t (parse_terms NoAtom cs)
      else if quantifier_char c then Inl nothing_to_repeat
      else then_rx t (parse_terms (Atom (atom c)) cs))"

text \<open>\<^verbatim>\<open>new RegExp(source)\<close>, which throws a SyntaxError on a malformed source.\<close>

definition RegExp_new :: "string \<Rightarrow> error + rx" where
  "RegExp_new src =
     (if \<exists>c \<in> set src. unmodelled_char c
      then Inl (Error OutsideFragment src)
      else parse_terms NoAtom src)"

section \<open>Pattern matcher\<close>

text \<open>
  \<^verbatim>\<open>name.replace\<close> with the pattern of one escaped star and the replacement
  \<^verbatim>\<open>'.*'\<close>: the pattern has no \<^verbatim>\<open>g\<close> flag, so only the leftmost star is
  replaced.
\<close>

fun replace_star :: "string \<Rightarrow> string" where
  "replace_star [] = []"
| "replace_star (c # cs) = (if c = CHR ''*'' then ''.*'' @ cs else c # replace_star cs)"

text \<open>
  The argument a caller passes where a name or pattern is expected: nothing, a string, a
  regular expression, or a value of another type (kept as its \<^verbatim>\<open>String(...)\<close>
  rendering for the error message).
\<close>

datatype pattern = PUndefined | PStr string | PRegex rx | POther string

definition isStr :: "pattern \<Rightarrow> bool" where
  "isStr a = (case a of PStr s \<Rightarrow> True | _ \<Rightarrow> False)"

definition isRegex :: "pattern \<Rightarrow> bool" where
  "isRegex a = (case a of PRegex r \<Rightarrow> True | _ \<Rightarrow> False)"

definition isUndefined :: "pattern \<Rightarrow> bool" where
  "isUndefined a = (case a of PUndefined \<Rightarrow> True | _ \<Rightarrow> False)"

text \<open>
  A regular expression object handed in by the caller is given by its syntax tree; it
  stands for the flagless object with the source \<open>rx_source\<close> below, which is also
  how a template literal prints it.
\<close>

fun rx_source :: "rx \<Rightarrow> string" where
  "rx_source Zero = ''[]''"
| "rx_source One = ''(?:)''"
| "rx_source (Chr c) = (if quantifier_char c \<or> unmodelled_char c \<or> c = CHR ''.''
                        then [CHR 0x5C, c] else [c])"
| "rx_source Dot = ''.''"
| "rx_source (Alt r s) = ''(?:'' @ rx_source r @ ''|'' @ rx_source s @ '')''"
| "rx_source (Seq r s) = ''(?:'' @ rx_source r @ '')(?:'' @ rx_source s @ '')''"
| "rx_source (Star r) = ''(?:'' @ rx_source r @ '')*''"

fun render :: "pattern \<Rightarrow> string" where
  "render PUndefined = ''undefined''"
| "render (PStr s) = s"
| "render (PRegex r) = ''/'' @ rx_source r @ ''/''"
| "render (POther s) = s"

text \<open>
  \<^verbatim>\<open>toRegex\<close>. Every caller checks \<^verbatim>\<open>isStr(name) || isRegex(name)\<close> first; on
  any other value the source hands the value back and the later \<^verbatim>\<open>regex.test\<close>
  is not a function.
\<close>

fun toRegex :: "pattern \<Rightarrow> error + rx" where
  "toRegex (PStr s) = RegExp_new (replace_star s)"
| "toRegex (PRegex r) = Inr r"
| "toRegex a = Inl (Error TypeError ''regex.test is not a function'')"

record pool =
  pid :: nat
  name :: string

text \<open>
  \<^verbatim>\<open>match\<close>: the loop pushes every pool whose name passes the test, in the order
  of the input.
\<close>

fun match :: "rx \<Rightarrow> pool list \<Rightarrow> pool list" where
  "match regex [] = []"
| "match regex (p # ps) =
     (if rx_test regex (name p) then p # match regex ps else match regex ps)"

section \<open>The cluster\<close>

text \<open>
  A pending connection is known by its identity only. A pool is its identity \<open>pid\<close>
  and its name: \<^verbatim>\<open>includes\<close> compares objects, and two pool records are equal
  exactly when they stand for the same object.
\<close>

type_synonym connection = nat

datatype mode = ORDER_MODE | RANDOM_MODE

text \<open>
  The fields of \<^verbatim>\<open>MegaCluster\<close> that its methods read or write. \<open>closed\<close> stands
  for the change that the last continuation of \<^verbatim>\<open>shutdown\<close> makes in one
  synchronous block: the fields \<^verbatim>\<open>id, warnings, createdAt, pools,
  PendingConnections, logger, mode, has, get, set\<close> become null, and the methods
  \<^verbatim>\<open>add, remove, request, shutdown, closePendingConnections\<close> are replaced.
  \<^verbatim>\<open>frozen\<close> is not in that list and keeps its array.
\<close>

record cluster =
  warnings :: "string list"
  pools :: "pool list"
  logger :: "nat option"
  mode :: mode
  PendingConnections :: "connection list"
  frozen :: "pool list"
  closed :: bool

text \<open>
  The failure events of a pool on which \<^verbatim>\<open>add\<close> registers a handler; the close
  failure carries the connection that could not be closed.
\<close>

datatype event =
    CLOSE_FAIL connection
  | CREATE_FAIL
  | MAX_CONNECTION
  | MAX_QUEUE_TIME
  | MAX_QUEUE_SIZE
  | COMMIT_FAIL
  | QUERY_FAIL
  | ROLLBACK_FAIL
  | SHUTDOWN_FAIL
  | TRANSACTION_FAIL

text \<open>
  What the collaborators answer. A batch asks the \<open>i\<close>-th element of its list, so an
  answer may depend on the position as well as on the object:
  \<^item> \<open>pool_shutdown i p\<close>: \<^verbatim>\<open>p.shutdown()\<close> resolved;
  \<^item> \<open>shutdown_events ps\<close>: the events for which a handler of this cluster runs while
    the shutdowns of the batch \<open>ps\<close> are awaited, each with the pool that emits it, in
    the order of the runs (a pool that fails to close an idle connection emits the close
    failure, a pool that refuses to shut down emits the shutdown failure);
  \<^item> \<open>pool_request p\<close>: \<^verbatim>\<open>p.request()\<close>, a rejection message or a connection;
  \<^item> \<open>request_events p\<close>: the events for which a handler of this cluster runs while
    \<^verbatim>\<open>p.request()\<close> is awaited, likewise;
  \<^item> \<open>connection_close i k\<close>: \<^verbatim>\<open>k.close()\<close>, \<open>None\<close> when it resolved and the
    message of the reason when it rejected;
  \<^item> \<open>logger_log l m\<close>: \<^verbatim>\<open>logger.log(m)\<close> of the logger \<open>l\<close>, likewise;
  \<^item> \<open>random_draw\<close>: the draw behind \<^verbatim>\<open>Math.random()\<close>.
  Every asynchronous method is modelled from its call to the moment its promise settles,
  with no other call in between; the handler runs listed above are part of it.
\<close>

record env =
  pool_shutdown :: "nat \<Rightarrow> pool \<Rightarrow> bool"
  shutdown_events :: "pool list \<Rightarrow> (event \<times> pool) list"
  pool_request :: "pool \<Rightarrow> string + connection"
  request_events :: "pool \<Rightarrow> (event \<times> pool) list"
  connection_close :: "nat \<Rightarrow> connection \<Rightarrow> string option"
  logger_log :: "nat \<Rightarrow> string \<Rightarrow> string option"
  random_draw :: nat

definition randomBetween :: "env \<Rightarrow> nat \<Rightarrow> nat \<Rightarrow> nat" where
  "randomBetween e lo hi = random_draw e mod (hi - lo + 1) + lo"

definition mce :: "string \<Rightarrow> error" where
  "mce m = Error MegaClusterError m"

definition after_shutdown :: error where
  "after_shutdown =
     mce (''Can'' @ [CHR 0x27] @ ''t perform any farther operations after shutdown'')"

definition null_access :: error where
  "null_access = Error TypeError ''Cannot read properties of null''"

definition isValidName :: "pattern \<Rightarrow> bool" where
  "isValidName a = (isStr a \<or> isRegex a)"

text \<open>
  The body shared by \<^verbatim>\<open>has.active\<close> and \<^verbatim>\<open>has.frozen\<close>, on the list each
  of them reads. After \<^verbatim>\<open>shutdown\<close> the namespace \<^verbatim>\<open>has\<close> is null.
\<close>

definition has_in :: "pool list \<Rightarrow> pattern \<Rightarrow> error + bool" where
  "has_in ps a =
     (if isUndefined a then Inr (length ps > 0)
      else if \<not> isValidName a then Inl (mce (''Invalid pool name: '' @ render a))
      else (case toRegex a of
              Inl e \<Rightarrow> Inl e
            | Inr r \<Rightarrow> Inr (length (match r ps) > 0)))"

definition has_active :: "pattern \<Rightarrow> cluster \<Rightarrow> error + bool" where
  "has_active a c = (if closed c then Inl null_access else has_in (pools c) a)"

definition has_frozen :: "pattern \<Rightarrow> cluster \<Rightarrow> error + bool" where
  "has_frozen a c = (if closed c then Inl null_access else has_in (frozen c) a)"

definition has_logger :: "cluster \<Rightarrow> bool" where
  "has_logger c = (logger c \<noteq> None)"

text \<open>The argument of \<^verbatim>\<open>add\<close>: a \<^verbatim>\<open>MegaClusterPool\<close> or anything else.\<close>

datatype add_arg = APool pool | ANotPool string

text \<open>
  \<^verbatim>\<open>add\<close>. The ten \<^verbatim>\<open>pool.on\<close> calls register handlers in the pool and leave
  the cluster as it is; a handler's run is \<open>on_event\<close> below.
\<close>

definition add :: "add_arg \<Rightarrow> cluster \<Rightarrow> (error + unit) \<times> cluster" where
  "add a c =
     (if closed c then (Inl after_shutdown, c)
      else (case a of
              ANotPool s \<Rightarrow> (Inl (mce (''Invalid pool: '' @ s)), c)
            | APool p \<Rightarrow>
               (case has_active (PStr (name p)) c of
                  Inl e \<Rightarrow> (Inl e, c)
                | Inr True \<Rightarrow> (Inl (mce (''Pool names must be unique: '' @ name p)), c)
                | Inr False \<Rightarrow>
                   (case has_frozen (PStr (name p)) c of
                      Inl e \<Rightarrow> (Inl e, c)
                    | Inr True \<Rightarrow> (Inl (mce (''Pool names must be unique: '' @ name p)), c)
                    | Inr False \<Rightarrow> (Inr (), c\<lparr>pools := pools c @ [p]\<rparr>)))))"

definition empty_cluster :: cluster where
  "empty_cluster =
     \<lparr>warnings = [], pools = [], logger = None, mode = ORDER_MODE,
      PendingConnections = [], frozen = [], closed = False\<rparr>"

text \<open>The constructor adds the given pools one after the other; the first throw ends it.\<close>

fun add_all :: "add_arg list \<Rightarrow> cluster \<Rightarrow> error + cluster" where
  "add_all [] c = Inr c"
| "add_all (a # as) c =
     (case add a c of
        (Inl e, c') \<Rightarrow> Inl e
      | (Inr u, c') \<Rightarrow> add_all as c')"

definition MegaCluster :: "add_arg list \<Rightarrow> error + cluster" where
  "MegaCluster as = add_all as empty_cluster"

subsection \<open>Failure events\<close>

fun warning_text :: "event \<Rightarrow> string \<Rightarrow> string" where
  "warning_text (CLOSE_FAIL k) n = ''Closing connection failed in: '' @ n"
| "warning_text CREATE_FAIL n = ''Creating connection failed in: '' @ n"
| "warning_text MAX_CONNECTION n = ''Max number of connections passed in: '' @ n"
| "warning_text MAX_QUEUE_TIME n = ''Max request queue time passed in: '' @ n"
| "warning_text MAX_QUEUE_SIZE n = ''Max request queue size passed in: '' @ n"
| "warning_text COMMIT_FAIL n = ''Commit transaction failed in: '' @ n"
| "warning_text QUERY_FAIL n = ''Query execution failed in: '' @ n"
| "warning_text ROLLBACK_FAIL n = ''Rollback failed in: '' @ n"
| "warning_text SHUTDOWN_FAIL n = ''Shutdown failed in: '' @ n"
| "warning_text TRANSACTION_FAIL n = ''Transaction failed in: '' @ n"

text \<open>
  The closure \<^verbatim>\<open>log\<close> of \<^verbatim>\<open>add\<close>. The message is pushed in the handler's own
  turn; the \<^verbatim>\<open>catch\<close> callback of a rejected \<^verbatim>\<open>logger.log\<close> runs afterwards
  and pushes the second warning.
\<close>

definition log :: "env \<Rightarrow> string \<Rightarrow> cluster \<Rightarrow> cluster" where
  "log e m c =
     (let c1 = c\<lparr>warnings := warnings c @ [m]\<rparr>
      in (case logger c of
            None \<Rightarrow> c1
          | Some l \<Rightarrow>
             (case logger_log e l m of
                None \<Rightarrow> c1
              | Some err \<Rightarrow> c1\<lparr>warnings := warnings c1 @ [''Failed to write log: '' @ err]\<rparr>)))"

text \<open>
  One run of the handler that \<^verbatim>\<open>add\<close> registered on pool \<open>p\<close> for the event. On a
  cluster that is shut down the handler reads a null field and throws.
\<close>

definition on_event :: "env \<Rightarrow> event \<Rightarrow> pool \<Rightarrow> cluster \<Rightarrow> (error + unit) \<times> cluster" where
  "on_event e ev p c =
     (if closed c then (Inl null_access, c)
      else (case ev of
              CLOSE_FAIL k \<Rightarrow>
                (Inr (), log e (warning_text ev (name p))
                           (c\<lparr>PendingConnections := PendingConnections c @ [k]\<rparr>))
            | _ \<Rightarrow> (Inr (), log e (warning_text ev (name p)) c)))"

text \<open>The handler runs of a list of events, one after the other.\<close>

fun emit_all :: "env \<Rightarrow> (event \<times> pool) list \<Rightarrow> cluster \<Rightarrow> cluster" where
  "emit_all e [] c = c"
| "emit_all e ((ev, p) # evs) c = emit_all e evs (snd (on_event e ev p c))"

subsection \<open>Selection\<close>

text \<open>\<^verbatim>\<open>get.pool\<close>; on a cluster that is shut down \<^verbatim>\<open>get\<close> is null.\<close>

definition get_pool :: "env \<Rightarrow> pattern \<Rightarrow> cluster \<Rightarrow> (error + pool) \<times> cluster" where
  "get_pool e a c =
     (if closed c then (Inl null_access, c)
      else (case pools c of
              [] \<Rightarrow> (Inl (mce ''No pool found!''), c)
            | first # others \<Rightarrow>
               (if isUndefined a then
                  (if mode c = RANDOM_MODE
                   then (Inr (pools c ! randomBetween e 0 (length (pools c) - 1)), c)
                   else (Inr first, c\<lparr>pools := others @ [first]\<rparr>))
                else if \<not> isValidName a
                  then (Inl (mce (''Invalid pool name: '' @ render a)), c)
                else (case toRegex a of
                        Inl err \<Rightarrow> (Inl err, c)
                      | Inr r \<Rightarrow>
                         (case match r (pools c) of
                            [] \<Rightarrow> (Inl (mce (''No matching pool found: '' @ render a)), c)
                          | [only] \<Rightarrow> (Inr only, c)
                          | sel # rest \<Rightarrow>
                             (if mode c = RANDOM_MODE
                              then (Inr ((sel # rest) ! randomBetween e 0 (length (sel # rest) - 1)), c)
                              else (Inr sel,
                                    c\<lparr>pools := filter (\<lambda>q. name sel \<noteq> name q) (pools c) @ [sel]\<rparr>)))))))"

text \<open>
  \<^verbatim>\<open>request\<close>: a throw of \<^verbatim>\<open>get.pool\<close> inside the executor rejects the
  promise; the handlers run while the request of the pool is awaited.
\<close>

definition request :: "env \<Rightarrow> pattern \<Rightarrow> cluster \<Rightarrow> (error + connection) \<times> cluster" where
  "request e a c =
     (if closed c then (Inl after_shutdown, c)
      else (case get_pool e a c of
              (Inl err, c') \<Rightarrow> (Inl err, c')
            | (Inr p, c') \<Rightarrow>
               (let c'' = emit_all e (request_events e p) c'
                in (case pool_request e p of
                      Inl m \<Rightarrow> (Inl (Error CollaboratorError m), c'')
                    | Inr k \<Rightarrow> (Inr k, c'')))))"

subsection \<open>Freezing\<close>

definition not_iterable :: error where
  "not_iterable = Error TypeError ''pools is not iterable''"

text \<open>
  \<^verbatim>\<open>freeze\<close> and \<^verbatim>\<open>unfreeze\<close> are not replaced by \<^verbatim>\<open>shutdown\<close>. After it,
  \<^verbatim>\<open>freeze\<close> loops over the null \<^verbatim>\<open>pools\<close>, and \<^verbatim>\<open>unfreeze\<close> filters
  \<^verbatim>\<open>frozen\<close> before its push on the null \<^verbatim>\<open>pools\<close> throws.
\<close>

definition freeze :: "pattern \<Rightarrow> cluster \<Rightarrow> (error + unit) \<times> cluster" where
  "freeze a c =
     (if \<not> isValidName a then (Inl (mce (''Invalid pool name: '' @ render a)), c)
      else (case toRegex a of
              Inl err \<Rightarrow> (Inl err, c)
            | Inr r \<Rightarrow>
               (if closed c then (Inl not_iterable, c)
                else (let ps = match r (pools c)
                      in if ps = []
                         then (Inl (mce (''No matching pool found: '' @ render a)), c)
                         else (Inr (), c\<lparr>pools := filter (\<lambda>p. p \<notin> set ps) (pools c),
                                          frozen := frozen c @ ps\<rparr>)))))"

definition unfreeze :: "pattern \<Rightarrow> cluster \<Rightarrow> (error + unit) \<times> cluster" where
  "unfreeze a c =
     (if \<not> isValidName a then (Inl (mce (''Invalid pool name: '' @ render a)), c)
      else (case toRegex a of
              Inl err \<Rightarrow> (Inl err, c)
            | Inr r \<Rightarrow>
               (let ps = match r (frozen c)
                in if ps = []
                   then (Inl (mce (''No matching pool found: '' @ render a)), c)
                   else (let c1 = c\<lparr>frozen := filter (\<lambda>p. p \<notin> set ps) (frozen c)\<rparr>
                         in if closed c then (Inl null_access, c1)
                            else (Inr (), c1\<lparr>pools := pools c @ ps\<rparr>)))))"

subsection \<open>Removal, pending connections, shutdown\<close>

text \<open>
  \<^verbatim>\<open>Promise.allSettled(xs.map(f))\<close>: every element with its outcome, in the order of
  the list, the \<open>i\<close>-th call being asked at position \<open>i\<close>.
\<close>

fun settle_from :: "nat \<Rightarrow> (nat \<Rightarrow> 'a \<Rightarrow> 'r) \<Rightarrow> 'a list \<Rightarrow> ('a \<times> 'r) list" where
  "settle_from i f [] = []"
| "settle_from i f (x # xs) = (x, f i x) # settle_from (Suc i) f xs"

definition allSettled :: "(nat \<Rightarrow> 'a \<Rightarrow> 'r) \<Rightarrow> 'a list \<Rightarrow> ('a \<times> 'r) list" where
  "allSettled f xs = settle_from 0 f xs"

fun join :: "string \<Rightarrow> string list \<Rightarrow> string" where
  "join sep [] = []"
| "join sep [x] = x"
| "join sep (x # y # ys) = x @ sep @ join sep (y # ys)"

text \<open>
  \<^verbatim>\<open>remove\<close>. While the shutdowns are awaited the handlers of \<^verbatim>\<open>add\<close> run
  and push warnings and pending connections; the continuation of
  \<^verbatim>\<open>Promise.allSettled\<close> then filters the active list.
\<close>

definition remove :: "env \<Rightarrow> pattern \<Rightarrow> cluster \<Rightarrow> (error + unit) \<times> cluster" where
  "remove e a c =
     (if closed c then (Inl after_shutdown, c)
      else if \<not> isValidName a then (Inl (mce (''Invalid pool name: '' @ render a)), c)
      else (case toRegex a of
              Inl err \<Rightarrow> (Inl err, c)
            | Inr r \<Rightarrow>
               (let ps = match r (pools c @ frozen c)
                in if ps = [] then (Inr (), c)
                   else (let results = allSettled (pool_shutdown e) ps;
                             c1 = emit_all e (shutdown_events e ps) c;
                             resolved = map fst (filter snd results);
                             rejected = map fst (filter (\<lambda>x. \<not> snd x) results);
                             c' = c1\<lparr>pools := filter (\<lambda>p. p \<notin> set resolved) (pools c1)\<rparr>
                         in if rejected = [] then (Inr (), c')
                            else (Inl (mce (''Shutdown fail in: ''
                                            @ join '', '' (map name rejected))), c')))))"

text \<open>The \<^verbatim>\<open>force\<close> argument: a boolean, or anything else (also no argument).\<close>

datatype force_arg = FBool bool | FOther

fun forced :: "force_arg \<Rightarrow> bool" where
  "forced (FBool b) = b"
| "forced FOther = False"

text \<open>\<^verbatim>\<open>results.find(rejected).reason\<close>, the message of the first rejection.\<close>

fun find_rejected :: "('a \<times> string option) list \<Rightarrow> string option" where
  "find_rejected [] = None"
| "find_rejected ((k, None) # xs) = find_rejected xs"
| "find_rejected ((k, Some m) # xs) = Some m"

definition closePendingConnections ::
  "env \<Rightarrow> force_arg \<Rightarrow> cluster \<Rightarrow> (error + unit) \<times> cluster" where
  "closePendingConnections e f c =
     (if closed c then (Inl after_shutdown, c)
      else if PendingConnections c = [] then (Inr (), c)
      else (let results = allSettled (connection_close e) (PendingConnections c)
            in if forced f then (Inr (), c\<lparr>PendingConnections := []\<rparr>)
               else (let c' = c\<lparr>PendingConnections :=
                                   map fst (filter (\<lambda>x. snd x \<noteq> None) results)\<rparr>
                     in if PendingConnections c' = [] then (Inr (), c')
                        else (case find_rejected results of
                                Some m \<Rightarrow> (Inl (Error CollaboratorError m), c')
                              | None \<Rightarrow> (Inl null_access, c')))))"

text \<open>The assignments of the last continuation of \<^verbatim>\<open>shutdown\<close>.\<close>

definition nullify :: "cluster \<Rightarrow> cluster" where
  "nullify c =
     c\<lparr>warnings := [], pools := [], PendingConnections := [], logger := None,
       closed := True\<rparr>"

definition shutdown :: "env \<Rightarrow> force_arg \<Rightarrow> cluster \<Rightarrow> (error + unit) \<times> cluster" where
  "shutdown e f c =
     (if closed c then (Inl after_shutdown, c)
      else (case remove e (PStr ''*'') c of
              (Inl err, c1) \<Rightarrow> (Inl (Error ShutdownError (message err)), c1)
            | (Inr u, c1) \<Rightarrow>
               (case closePendingConnections e f c1 of
                  (Inl err, c2) \<Rightarrow> (Inl (Error ShutdownError (message err)), c2)
                | (Inr v, c2) \<Rightarrow> (Inr (), nullify c2))))"

subsection \<open>Setters\<close>

text \<open>
  The argument of \<^verbatim>\<open>set.mode\<close> and of \<^verbatim>\<open>set.logger\<close>: one of the two modes,
  a \<^verbatim>\<open>Logger\<close>, or another value with its rendering.
\<close>

datatype mode_arg = AMode mode | ANotMode string

datatype logger_arg = ALogger nat | ANotLogger string

definition set_mode :: "mode_arg \<Rightarrow> cluster \<Rightarrow> (error + unit) \<times> cluster" where
  "set_mode t c =
     (if closed c then (Inl null_access, c)
      else (case t of
              ANotMode s \<Rightarrow> (Inl (mce (''Invalid mode type: '' @ s)), c)
            | AMode m \<Rightarrow> (Inr (), c\<lparr>mode := m\<rparr>)))"

definition set_logger :: "logger_arg \<Rightarrow> cluster \<Rightarrow> (error + unit) \<times> cluster" where
  "set_logger i c =
     (if closed c then (Inl null_access, c)
      else (case i of
              ANotLogger s \<Rightarrow> (Inl (mce (''Invalid logger: '' @ s)), c)
            | ALogger l \<Rightarrow> (Inr (), c\<lparr>logger := Some l\<rparr>)))"

text \<open>An element of a warnings array: a string, or another value with its rendering.\<close>

datatype jsval = JString string | JOther string

datatype warnings_arg = WString string | WArray "jsval list" | WOther string

text \<open>
  The \<^verbatim>\<open>forEach\<close> of \<^verbatim>\<open>set.warnings\<close>: each string is pushed at once, and the
  throw on an element that is no string leaves the loop.
\<close>

fun push_each :: "jsval list \<Rightarrow> string list \<Rightarrow> (error + unit) \<times> string list" where
  "push_each [] ws = (Inr (), ws)"
| "push_each (JString m # ms) ws = push_each ms (ws @ [m])"
| "push_each (JOther s # ms) ws = (Inl (mce (''Invalid warning: '' @ s)), ws)"

definition set_warnings :: "warnings_arg \<Rightarrow> cluster \<Rightarrow> (error + unit) \<times> cluster" where
  "set_warnings a c =
     (if closed c then (Inl null_access, c)
      else (case a of
              WString m \<Rightarrow> (Inr (), c\<lparr>warnings := warnings c @ [m]\<rparr>)
            | WArray [] \<Rightarrow> (Inr (), c\<lparr>warnings := []\<rparr>)
            | WArray (m # ms) \<Rightarrow>
               (case push_each (m # ms) (warnings c) of
                  (r, ws) \<Rightarrow> (r, c\<lparr>warnings := ws\<rparr>))
            | WOther s \<Rightarrow> (Inl (mce (''Invalid warnings: '' @ s)), c)))"

subsection \<open>Sequences of calls\<close>

datatype call =
    Add add_arg
  | Remove pattern
  | Request pattern
  | Freeze pattern
  | Unfreeze pattern
  | ClosePendingConnections force_arg
  | Shutdown force_arg
  | GetPool pattern
  | SetMode mode_arg
  | SetLogger logger_arg
  | SetWarnings warnings_arg
  | Emit event pool

text \<open>The cluster after a call, whatever the call returned or threw.\<close>

fun exec :: "env \<Rightarrow> call \<Rightarrow> cluster \<Rightarrow> cluster" where
  "exec e (Add a) c = snd (add a c)"
| "exec e (Remove a) c = snd (remove e a c)"
| "exec e (Request a) c = snd (request e a c)"
| "exec e (Freeze a) c = snd (freeze a c)"
| "exec e (Unfreeze a) c = snd (unfreeze a c)"
| "exec e (ClosePendingConnections f) c = snd (closePendingConnections e f c)"
| "exec e (Shutdown f) c = snd (shutdown e f c)"
| "exec e (GetPool a) c = snd (get_pool e a c)"
| "exec e (SetMode t) c = snd (set_mode t c)"
| "exec e (SetLogger i) c = snd (set_logger i c)"
| "exec e (SetWarnings a) c = snd (set_warnings a c)"
| "exec e (Emit ev p) c = snd (on_event e ev p c)"

fun run :: "(env \<times> call) list \<Rightarrow> cluster \<Rightarrow> cluster" where
  "run [] c = c"
| "run ((e, k) # ks) c = run ks (exec e k c)"

text \<open>
  \<open>n\<close> selections with the same argument, one after the other: what each returned or
  threw, and the cluster after the last.
\<close>

fun selections :: "env \<Rightarrow> pattern \<Rightarrow> nat \<Rightarrow> cluster \<Rightarrow> (error + pool) list \<times> cluster" where
  "selections e a 0 c = ([], c)"
| "selections e a (Suc n) c =
     (case get_pool e a c of
        (r, c') \<Rightarrow> (case selections e a n c' of (rs, c'') \<Rightarrow> (r # rs, c'')))"

section \<open>Example collaborators\<close>

text \<open>Every pool shuts down, every connection closes, every log is written.\<close>

definition env_ok :: env where
  "env_ok =
     \<lparr>pool_shutdown = (\<lambda>i p. True), shutdown_events = (\<lambda>ps. []),
      pool_request = (\<lambda>p. Inr 0), request_events = (\<lambda>p. []),
      connection_close = (\<lambda>i k. None), logger_log = (\<lambda>l m. None), random_draw = 0\<rparr>"

text \<open>Connection 7 closes; connections 8 and 9 reject with different reasons.\<close>

definition env_8_9_fail :: env where
  "env_8_9_fail =
     \<lparr>pool_shutdown = (\<lambda>i p. True), shutdown_events = (\<lambda>ps. []),
      pool_request = (\<lambda>p. Inr 0), request_events = (\<lambda>p. []),
      connection_close = (\<lambda>i k. if k = 7 then None else if k = 8 then Some ''first'' else Some ''second''),
      logger_log = (\<lambda>l m. None), random_draw = 0\<rparr>"

text \<open>A logger whose every write is rejected.\<close>

definition env_log_fails :: env where
  "env_log_fails =
     \<lparr>pool_shutdown = (\<lambda>i p. True), shutdown_events = (\<lambda>ps. []),
      pool_request = (\<lambda>p. Inr 0), request_events = (\<lambda>p. []),
      connection_close = (\<lambda>i k. None), logger_log = (\<lambda>l m. Some ''disk full''),
      random_draw = 0\<rparr>"

text \<open>
  The pool named \<^verbatim>\<open>b\<close> refuses to shut down and emits the shutdown failure;
  everything else succeeds.
\<close>

definition env_b_fails :: env where
  "env_b_fails =
     \<lparr>pool_shutdown = (\<lambda>i p. name p \<noteq> ''b''),
      shutdown_events = (\<lambda>ps. map (\<lambda>p. (SHUTDOWN_FAIL, p)) (filter (\<lambda>p. name p = ''b'') ps)),
      pool_request = (\<lambda>p. Inr 0), request_events = (\<lambda>p. []),
      connection_close = (\<lambda>i k. None), logger_log = (\<lambda>l m. None), random_draw = 0\<rparr>"

text \<open>
  Every pool shuts down, but each pool of a batch fails to close one idle connection
  (numbered like the pool) and emits the close failure; no connection closes later.
\<close>

definition env_close_fails :: env where
  "env_close_fails =
     \<lparr>pool_shutdown = (\<lambda>i p. True),
      shutdown_events = (\<lambda>ps. map (\<lambda>p. (CLOSE_FAIL (pid p), p)) ps),
      pool_request = (\<lambda>p. Inr 0), request_events = (\<lambda>p. []),
      connection_close = (\<lambda>i k. Some ''Ops''), logger_log = (\<lambda>l m. None), random_draw = 0\<rparr>"

section \<open>Example clusters\<close>

definition pool_a :: pool where
  "pool_a = \<lparr>pid = 1, name = ''a''\<rparr>"

definition pool_b :: pool where
  "pool_b = \<lparr>pid = 2, name = ''b''\<rparr>"

definition cluster_a_b :: cluster where
  "cluster_a_b = empty_cluster\<lparr>pools := [pool_a, pool_b]\<rparr>"

definition pool_c :: pool where
  "pool_c = \<lparr>pid = 3, name = ''c''\<rparr>"

definition cluster_a_b_c :: cluster where
  "cluster_a_b_c = empty_cluster\<lparr>pools := [pool_a, pool_b, pool_c]\<rparr>"

text \<open>
  The cluster of \<^verbatim>\<open>a\<close> and \<^verbatim>\<open>b\<close> after both pools shut down while each
  failed to close one idle connection.
\<close>

definition cluster_after_remove :: cluster where
  "cluster_after_remove =
     cluster_a_b\<lparr>warnings := [''Closing connection failed in: a'',
                               ''Closing connection failed in: b''],
                 pools := [], PendingConnections := [1, 2]\<rparr>"

definition asia_1 :: pool where
  "asia_1 = \<lparr>pid = 11, name = ''asia_1''\<rparr>"

definition asia_2 :: pool where
  "asia_2 = \<lparr>pid = 12, name = ''asia_2''\<rparr>"

definition cluster_asia :: cluster where
  "cluster_asia = empty_cluster\<lparr>pools := [asia_1, asia_2]\<rparr>"

text \<open>Two groups in one active list, and the expression of \<^verbatim>\<open>asia_*\<close>.\<close>

definition cluster_groups :: cluster where
  "cluster_groups = empty_cluster\<lparr>pools := [pool_a, asia_1, asia_2, pool_b]\<rparr>"

definition asia_regex :: rx where
  "asia_regex =
     Seq (Chr CHR ''a'') (Seq (Chr CHR ''s'') (Seq (Chr CHR ''i'') (Seq (Chr CHR ''a'')
       (Seq (Chr CHR ''_'') (Star Dot)))))"

text \<open>The pool \<^verbatim>\<open>a\<close> frozen, the pool \<^verbatim>\<open>b\<close> active.\<close>

definition cluster_a_frozen :: cluster where
  "cluster_a_frozen = empty_cluster\<lparr>pools := [pool_b], frozen := [pool_a]\<rparr>"

text \<open>Two pool objects that carry the same name \<^verbatim>\<open>a+b\<close>.\<close>

definition plus_1 :: pool where
  "plus_1 = \<lparr>pid = 21, name = ''a+b''\<rparr>"

definition plus_2 :: pool where
  "plus_2 = \<lparr>pid = 22, name = ''a+b''\<rparr>"

section \<open>The plain wildcard reading\<close>

text \<open>
  Not from the source: the reading of a wildcard string that the matcher is compared
  with, in which every star stands for any run of characters and every other character
  for itself, the whole name being matched.
\<close>

fun plain_wildcard :: "string \<Rightarrow> string \<Rightarrow> bool" where
  "plain_wildcard [] [] = True"
| "plain_wildcard [] (d # ds) = False"
| "plain_wildcard (c # cs) [] = (c = CHR ''*'' \<and> plain_wildcard cs [])"
| "plain_wildcard (c # cs) (d # ds) =
     (if c = CHR ''*'' then plain_wildcard cs (d # ds) \<or> plain_wildcard (c # cs) ds
      else c = d \<and> plain_wildcard cs ds)"

section \<open>Lemmas on the pattern matcher\<close>

lemma nil_in_conc: "([] \<in> conc A B) = ([] \<in> A \<and> [] \<in> B)"
  by (auto simp: conc_def)

lemma cons_in_conc:
  "(c # w \<in> conc A B) =
     (([] \<in> A \<and> c # w \<in> B) \<or> (\<exists>u v. w = u @ v \<and> c # u \<in> A \<and> v \<in> B))"
  by (auto simp: conc_def Cons_eq_append_conv)

lemma cons_in_star_split:
  assumes "x \<in> star A" and "x = c # w"
  shows "\<exists>u v. w = u @ v \<and> c # u \<in> A \<and> v \<in> star A"
  using assms
proof (induction rule: star.induct)
  case star_empty
  then show ?case by simp
next
  case (star_step u v)
  show ?case
  proof (cases u)
    case Nil
    then show ?thesis using star_step by simp
  next
    case (Cons d u')
    then have "d = c" "w = u' @ v" using star_step.prems by simp_all
    then show ?thesis using star_step.hyps(1,2) Cons by blast
  qed
qed

lemma cons_in_star:
  "(c # w \<in> star A) = (\<exists>u v. w = u @ v \<and> c # u \<in> A \<and> v \<in> star A)"
proof
  assume "c # w \<in> star A"
  then show "\<exists>u v. w = u @ v \<and> c # u \<in> A \<and> v \<in> star A"
    by (rule cons_in_star_split) simp
next
  assume "\<exists>u v. w = u @ v \<and> c # u \<in> A \<and> v \<in> star A"
  then obtain u v where "w = u @ v" "c # u \<in> A" "v \<in> star A" by blast
  then show "c # w \<in> star A" using star_step [of "c # u" A v] by simp
qed

lemma nullable_lang: "nullable r = ([] \<in> lang r)"
  by (induction r) (auto simp: nil_in_conc star_empty)

lemma in_conc: "(w \<in> conc A B) = (\<exists>u v. w = u @ v \<and> u \<in> A \<and> v \<in> B)"
  by (auto simp: conc_def)

lemma deriv_lang: "(w \<in> lang (deriv c r)) = (c # w \<in> lang r)"
proof (induction r arbitrary: w)
  case (Seq r s)
  have left: "(w \<in> conc (lang (deriv c r)) (lang s)) =
                (\<exists>u v. w = u @ v \<and> c # u \<in> lang r \<and> v \<in> lang s)"
    by (simp add: in_conc Seq.IH)
  have right: "(c # w \<in> lang (Seq r s)) =
                (([] \<in> lang r \<and> c # w \<in> lang s)
                 \<or> (\<exists>u v. w = u @ v \<and> c # u \<in> lang r \<and> v \<in> lang s))"
    by (simp add: cons_in_conc)
  show ?case
  proof (cases "nullable r")
    case True
    then have "(w \<in> lang (deriv c (Seq r s))) =
                 (w \<in> conc (lang (deriv c r)) (lang s) \<or> c # w \<in> lang s)"
      by (simp add: Seq.IH)
    then show ?thesis using True left right by (auto simp: nullable_lang)
  next
    case False
    then have "(w \<in> lang (deriv c (Seq r s))) = (w \<in> conc (lang (deriv c r)) (lang s))"
      by simp
    then show ?thesis using False left right by (auto simp: nullable_lang)
  qed
next
  case (Star r)
  have "(w \<in> lang (deriv c (Star r))) =
          (\<exists>u v. w = u @ v \<and> c # u \<in> lang r \<and> v \<in> star (lang r))"
    by (simp add: in_conc Star.IH)
  then show ?case by (simp add: cons_in_star)
qed auto

lemma matches_prefix_lang:
  "matches_prefix r s = (\<exists>u v. s = u @ v \<and> u \<in> lang r)"
proof (induction s arbitrary: r)
  case Nil
  then show ?case by (simp add: nullable_lang)
next
  case (Cons c s)
  have "(\<exists>u v. c # s = u @ v \<and> u \<in> lang r) =
          ([] \<in> lang r \<or> (\<exists>u v. s = u @ v \<and> c # u \<in> lang r))"
    by (auto simp: Cons_eq_append_conv)
  then show ?case by (simp add: Cons.IH nullable_lang deriv_lang)
qed

lemma rx_test_lang:
  "rx_test r s = (\<exists>p u v. s = p @ u @ v \<and> u \<in> lang r)"
proof (induction s)
  case Nil
  then show ?case by (simp add: nullable_lang)
next
  case (Cons c s)
  have "(\<exists>p u v. c # s = p @ u @ v \<and> u \<in> lang r) =
          ((\<exists>u v. c # s = u @ v \<and> u \<in> lang r) \<or> (\<exists>p u v. s = p @ u @ v \<and> u \<in> lang r))"
    (is "?l = (?a \<or> ?b)")
  proof
    assume ?l
    then obtain p u v where h: "c # s = p @ u @ v" "u \<in> lang r" by blast
    show "?a \<or> ?b"
    proof (cases p)
      case Nil
      then show ?thesis using h by auto
    next
      case (Cons d p')
      then have "s = p' @ u @ v" using h(1) by simp
      then show ?thesis using h(2) by blast
    qed
  next
    assume "?a \<or> ?b"
    then show ?l
    proof
      assume ?a
      then obtain u v where "c # s = [] @ u @ v" "u \<in> lang r" by auto
      then show ?l by blast
    next
      assume ?b
      then obtain p u v where "s = p @ u @ v" "u \<in> lang r" by blast
      then have "c # s = (c # p) @ u @ v" by simp
      then show ?l using \<open>u \<in> lang r\<close> by blast
    qed
  qed
  then show ?case using Cons.IH matches_prefix_lang [of r "c # s"] by simp
qed

lemma match_filter: "match regex ps = filter (\<lambda>p. rx_test regex (name p)) ps"
  by (induction ps) auto

lemma replace_star_none: "CHR ''*'' \<notin> set s \<Longrightarrow> replace_star s = s"
  by (induction s) auto

lemma replace_star_first:
  "CHR ''*'' \<notin> set xs \<Longrightarrow> replace_star (xs @ CHR ''*'' # ys) = xs @ ''.*'' @ ys"
  by (induction xs) auto

lemma matches_prefix_append: "matches_prefix r s \<Longrightarrow> matches_prefix r (s @ t)"
proof (induction s arbitrary: r)
  case Nil
  then show ?case by (cases t) simp_all
next
  case (Cons c s)
  then show ?case by auto
qed

lemma rx_test_append: "rx_test r s \<Longrightarrow> rx_test r (s @ t)"
proof (induction s)
  case Nil
  then show ?case by (cases t) simp_all
next
  case (Cons c s)
  then show ?case using matches_prefix_append [of r "c # s" t] by auto
qed

lemma rx_test_prepend: "rx_test r s \<Longrightarrow> rx_test r (p @ s)"
proof (induction p)
  case Nil
  then show ?case by simp
next
  case (Cons c p)
  then show ?case by simp
qed

lemma rx_test_unanchored: "rx_test r n \<Longrightarrow> rx_test r (pre @ n @ post)"
  by (simp add: rx_test_append rx_test_prepend)

lemma matches_prefix_Zero: "\<not> matches_prefix Zero s"
  by (induction s) auto

lemma matches_prefix_One: "matches_prefix One s"
  by (cases s) simp_all

lemma rx_test_Chr: "rx_test (Chr c) s = (c \<in> set s)"
  by (induction s) (auto simp: matches_prefix_Zero matches_prefix_One)

section \<open>Lemmas on the operations\<close>

lemma push_each_prefix:
  "push_each (map JString pre @ JOther x # rest) ws =
     (Inl (mce (''Invalid warning: '' @ x)), ws @ pre)"
  by (induction pre arbitrary: ws) auto

lemma get_pool_rotate:
  assumes "\<not> closed c" "mode c = ORDER_MODE" "pools c \<noteq> []"
  shows "get_pool e PUndefined c = (Inr (hd (pools c)), c\<lparr>pools := rotate1 (pools c)\<rparr>)"
  using assms by (cases "pools c") (simp_all add: get_pool_def isUndefined_def)

lemma selections_rotate:
  assumes "\<not> closed c" "mode c = ORDER_MODE" "pools c \<noteq> []"
  shows "selections e PUndefined k c =
           (map (\<lambda>i. Inr (hd (rotate i (pools c)))) [0..<k], c\<lparr>pools := rotate k (pools c)\<rparr>)"
  using assms
proof (induction k arbitrary: c)
  case 0
  then show ?case by simp
next
  case (Suc k)
  let ?c' = "c\<lparr>pools := rotate1 (pools c)\<rparr>"
  have step: "get_pool e PUndefined c = (Inr (hd (pools c)), ?c')"
    using Suc.prems by (rule get_pool_rotate)
  have c': "\<not> closed ?c'" "mode ?c' = ORDER_MODE" "pools ?c' \<noteq> []"
    using Suc.prems by simp_all
  have ih: "selections e PUndefined k ?c' =
           (map (\<lambda>i. Inr (hd (rotate i (pools ?c')))) [0..<k], ?c'\<lparr>pools := rotate k (pools ?c')\<rparr>)"
    using Suc.IH [OF c'] .
  have idx: "[0..<Suc k] = 0 # map Suc [0..<k]"
    by (simp add: upt_conv_Cons map_Suc_upt del: upt_Suc)
  have rot: "\<And>i. rotate i (rotate1 (pools c)) = rotate (Suc i) (pools c)"
    by (simp add: rotate1_rotate_swap)
  show ?case
    unfolding idx by (simp add: step ih rot o_def del: upt_Suc)
qed

lemma heads_of_rotations:
  assumes "ps \<noteq> []"
  shows "map (\<lambda>i. hd (rotate i ps)) [0..<length ps] = ps"
proof -
  have "map (\<lambda>i. hd (rotate i ps)) [0..<length ps] = map ((!) ps) [0..<length ps]"
    using assms by (intro map_cong refl) (simp add: hd_rotate_conv_nth)
  then show ?thesis by (simp add: map_nth)
qed

lemma settle_from_nth:
  "settle_from i f xs = map (\<lambda>j. (xs ! j, f (i + j) (xs ! j))) [0..<length xs]"
proof (induction xs arbitrary: i)
  case Nil
  then show ?case by simp
next
  case (Cons x xs)
  have idx: "[0..<length (x # xs)] = 0 # map Suc [0..<length xs]"
    by (simp add: upt_conv_Cons map_Suc_upt del: upt_Suc)
  show ?case
    unfolding idx by (simp add: Cons.IH o_def)
qed

lemma allSettled_nth:
  "allSettled f xs = map (\<lambda>j. (xs ! j, f j (xs ! j))) [0..<length xs]"
  by (simp add: allSettled_def settle_from_nth)

lemma find_rejected_first:
  "i < length rs \<Longrightarrow> snd (rs ! i) = Some m \<Longrightarrow> \<forall>j<i. snd (rs ! j) = None
     \<Longrightarrow> find_rejected rs = Some m"
proof (induction rs arbitrary: i)
  case Nil
  then show ?case by simp
next
  case (Cons r rs)
  obtain k o' where r: "r = (k, o')" by (cases r)
  show ?case
  proof (cases i)
    case 0
    then show ?thesis using Cons.prems r by simp
  next
    case (Suc i')
    have "snd ((r # rs) ! 0) = None" using Cons.prems(3) Suc by blast
    then have none: "o' = None" using r by simp
    have "find_rejected rs = Some m"
    proof (rule Cons.IH)
      show "i' < length rs" using Cons.prems(1) Suc by simp
      show "snd (rs ! i') = Some m" using Cons.prems(2) Suc by simp
      show "\<forall>j<i'. snd (rs ! j) = None"
      proof (intro allI impI)
        fix j assume "j < i'"
        then have "Suc j < i" using Suc by simp
        then have "snd ((r # rs) ! Suc j) = None" using Cons.prems(3) by blast
        then show "snd (rs ! j) = None" by simp
      qed
    qed
    then show ?thesis using r none by simp
  qed
qed

lemma kept_by_index:
  "map fst (filter (\<lambda>x. snd x \<noteq> None) (allSettled f xs)) =
     map ((!) xs) (filter (\<lambda>i. f i (xs ! i) \<noteq> None) [0..<length xs])"
  by (simp add: allSettled_nth filter_map o_def)

lemma closePendingConnections_live:
  assumes "\<not> closed c" and "\<not> forced f" and "PendingConnections c \<noteq> []"
    and "k = map fst (filter (\<lambda>x. snd x \<noteq> None)
                 (allSettled (connection_close e) (PendingConnections c)))"
  shows "closePendingConnections e f c =
           (if k = [] then (Inr (), c\<lparr>PendingConnections := k\<rparr>)
            else (case find_rejected (allSettled (connection_close e) (PendingConnections c)) of
                    Some m \<Rightarrow> (Inl (Error CollaboratorError m), c\<lparr>PendingConnections := k\<rparr>)
                  | None \<Rightarrow> (Inl null_access, c\<lparr>PendingConnections := k\<rparr>)))"
  unfolding closePendingConnections_def Let_def assms(4) [symmetric]
  using assms(1-3) by simp

lemma closePendingConnections_frame:
  "snd (closePendingConnections e f c) =
     c\<lparr>PendingConnections := PendingConnections (snd (closePendingConnections e f c))\<rparr>"
  by (simp add: closePendingConnections_def Let_def split: option.split)

lemma exec_closed: "closed c \<Longrightarrow> closed (exec e k c)"
  by (cases k)
     (simp_all add: add_def remove_def request_def freeze_def unfreeze_def
        closePendingConnections_def shutdown_def get_pool_def set_mode_def set_logger_def
        set_warnings_def on_event_def Let_def split: sum.split)

lemma run_closed: "closed c \<Longrightarrow> closed (run ks c)"
proof (induction ks arbitrary: c)
  case Nil
  then show ?case by simp
next
  case (Cons k ks)
  obtain e k' where k: "k = (e, k')" by (cases k)
  show ?case unfolding k using Cons.IH [OF exec_closed [OF Cons.prems]] by simp
qed

lemma filter_name_remove1:
  "distinct (map name ps) \<Longrightarrow> sel \<in> set ps \<Longrightarrow>
     filter (\<lambda>q. name sel \<noteq> name q) ps = remove1 sel ps"
proof (induction ps)
  case Nil
  then show ?case by simp
next
  case (Cons p ps)
  show ?case
  proof (cases "p = sel")
    case True
    have "\<forall>q \<in> set ps. name sel \<noteq> name q"
      using Cons.prems(1) True by auto
    then have "filter (\<lambda>q. name sel \<noteq> name q) ps = ps"
      by (simp add: filter_id_conv)
    then show ?thesis using True by simp
  next
    case False
    then have in_ps: "sel \<in> set ps" using Cons.prems(2) by simp
    then have "name sel \<in> set (map name ps)" by simp
    then have "name sel \<noteq> name p" using Cons.prems(1) by auto
    moreover have "filter (\<lambda>q. name sel \<noteq> name q) ps = remove1 sel ps"
      using Cons.IH Cons.prems(1) in_ps by simp
    ultimately show ?thesis using False by simp
  qed
qed

lemma get_pool_group:
  assumes "\<not> closed c" and "mode c = ORDER_MODE" and "isValidName a"
    and "toRegex a = Inr r" and "match r (pools c) = sel # nxt # rest"
  shows "get_pool e a c =
           (Inr sel, c\<lparr>pools := filter (\<lambda>q. name sel \<noteq> name q) (pools c) @ [sel]\<rparr>)"
proof -
  have ne: "pools c \<noteq> []" using assms(5) by auto
  then obtain first others where ps: "pools c = first # others" by (cases "pools c") auto
  have nu: "\<not> isUndefined a"
    using assms(3) by (cases a) (simp_all add: isValidName_def isStr_def isRegex_def isUndefined_def)
  have m: "match r (first # others) = sel # nxt # rest" using assms(5) ps by simp
  show ?thesis
    unfolding get_pool_def using assms(1-4) nu
    by (simp add: ps m del: match.simps)
qed

lemma on_event_fields:
  "pools (snd (on_event e ev p c)) = pools c"
  "frozen (snd (on_event e ev p c)) = frozen c"
  "logger (snd (on_event e ev p c)) = logger c"
  "mode (snd (on_event e ev p c)) = mode c"
  "closed (snd (on_event e ev p c)) = closed c"
  "cluster.more (snd (on_event e ev p c)) = cluster.more c"
  by (cases ev; simp add: on_event_def log_def Let_def split: option.split)+

lemma on_event_grows:
  "\<exists>ws. warnings (snd (on_event e ev p c)) = warnings c @ ws"
  "\<exists>ks. PendingConnections (snd (on_event e ev p c)) = PendingConnections c @ ks"
  by (cases ev; simp add: on_event_def log_def Let_def split: option.split)+

lemma emit_all_fields:
  "pools (emit_all e evs c) = pools c"
  "frozen (emit_all e evs c) = frozen c"
  "logger (emit_all e evs c) = logger c"
  "mode (emit_all e evs c) = mode c"
  "closed (emit_all e evs c) = closed c"
  "cluster.more (emit_all e evs c) = cluster.more c"
  by (induction e evs c rule: emit_all.induct; simp add: on_event_fields)+

lemma emit_all_grows_warnings: "\<exists>ws. warnings (emit_all e evs c) = warnings c @ ws"
proof (induction e evs c rule: emit_all.induct)
  case (1 e c)
  then show ?case by simp
next
  case (2 e ev p evs c)
  obtain ws1 where "warnings (snd (on_event e ev p c)) = warnings c @ ws1"
    using on_event_grows(1) by blast
  moreover obtain ws2 where
    "warnings (emit_all e evs (snd (on_event e ev p c))) = warnings (snd (on_event e ev p c)) @ ws2"
    using 2 by blast
  ultimately show ?case by simp
qed

lemma emit_all_grows_pending:
  "\<exists>ks. PendingConnections (emit_all e evs c) = PendingConnections c @ ks"
proof (induction e evs c rule: emit_all.induct)
  case (1 e c)
  then show ?case by simp
next
  case (2 e ev p evs c)
  obtain ks1 where "PendingConnections (snd (on_event e ev p c)) = PendingConnections c @ ks1"
    using on_event_grows(2) by blast
  moreover obtain ks2 where
    "PendingConnections (emit_all e evs (snd (on_event e ev p c))) =
       PendingConnections (snd (on_event e ev p c)) @ ks2"
    using 2 by blast
  ultimately show ?case by simp
qed

lemma remove_fields:
  "frozen (snd (remove e a c)) = frozen c"
  "logger (snd (remove e a c)) = logger c"
  "mode (snd (remove e a c)) = mode c"
  "closed (snd (remove e a c)) = closed c"
  "cluster.more (snd (remove e a c)) = cluster.more c"
  by (simp_all add: remove_def Let_def emit_all_fields split: sum.split)

lemma remove_keeps_frozen: "frozen (snd (remove e a c)) = frozen c"
  by (rule remove_fields(1))

lemma remove_frame:
  "snd (remove e a c) =
     c\<lparr>warnings := warnings (snd (remove e a c)), pools := pools (snd (remove e a c)),
       PendingConnections := PendingConnections (snd (remove e a c))\<rparr>"
  by (rule cluster.equality) (simp_all add: remove_fields)

lemma remove_grows:
  "\<exists>ws. warnings (snd (remove e a c)) = warnings c @ ws"
  "\<exists>ks. PendingConnections (snd (remove e a c)) = PendingConnections c @ ks"
  using emit_all_grows_warnings emit_all_grows_pending
  by (simp_all add: remove_def Let_def split: sum.split)

lemma every_name_passes: "rx_test (Star Dot) n"
  by (cases n) simp_all

lemma match_everything: "match (Star Dot) ps = ps"
  by (induction ps) (simp_all add: every_name_passes del: rx_test.simps)

lemma toRegex_star: "toRegex (PStr ''*'') = Inr (Star Dot)"
  by code_simp

lemma remove_star:
  assumes "\<not> closed c" and "pools c @ frozen c \<noteq> []"
  shows "snd (remove e (PStr ''*'') c) =
           (emit_all e (shutdown_events e (pools c @ frozen c)) c)
             \<lparr>pools := filter (\<lambda>p. p \<notin> set (map fst (filter snd
                          (allSettled (pool_shutdown e) (pools c @ frozen c))))) (pools c)\<rparr>"
  using assms
  by (auto simp: remove_def Let_def isValidName_def isStr_def toRegex_star match_everything
        emit_all_fields simp del: toRegex.simps match.simps)

lemma parse_terms_error: "parse_terms st s = Inl err \<Longrightarrow> err = nothing_to_repeat"
proof (induction st s arbitrary: err rule: parse_terms.induct)
  case (5 a c cs)
  then show ?case
    by (cases "parse_terms (Atom (atom c)) cs") (auto split: if_splits)
next
  case (6 t c cs)
  then show ?case
    by (cases "parse_terms NoAtom cs"; cases "parse_terms (Atom (atom c)) cs")
       (auto split: if_splits)
qed (auto split: if_splits)

lemma toRegex_error: "toRegex a = Inl err \<Longrightarrow> err \<noteq> after_shutdown"
proof (cases a)
  case (PStr s)
  assume "toRegex a = Inl err"
  then have "err = Error OutsideFragment (replace_star s) \<or> err = nothing_to_repeat"
    using PStr parse_terms_error [of NoAtom "replace_star s" err]
    by (auto simp: RegExp_new_def split: if_splits)
  then show ?thesis
    by (auto simp: after_shutdown_def mce_def nothing_to_repeat_def)
qed (auto simp: after_shutdown_def mce_def)

lemma has_in_error: "has_in ps a = Inl err \<Longrightarrow> err \<noteq> after_shutdown"
  using toRegex_error [of a]
  by (auto simp: has_in_def after_shutdown_def mce_def split: if_splits sum.splits)

lemma get_pool_error: "\<not> closed c \<Longrightarrow> fst (get_pool e a c) \<noteq> Inl after_shutdown"
  using toRegex_error [of a]
  by (auto simp: get_pool_def after_shutdown_def mce_def Let_def
           split: if_splits sum.splits list.splits)

lemma live_methods_not_replaced:
  assumes "\<not> closed c"
  shows "fst (add a c) \<noteq> Inl after_shutdown"
    and "fst (remove e p c) \<noteq> Inl after_shutdown"
    and "fst (request e p c) \<noteq> Inl after_shutdown"
    and "fst (shutdown e f c) \<noteq> Inl after_shutdown"
    and "fst (closePendingConnections e f c) \<noteq> Inl after_shutdown"
proof -
  show "fst (add a c) \<noteq> Inl after_shutdown"
  proof (cases a)
    case (APool q)
    have "\<And>ps err. has_in ps (PStr (name q)) = Inl err \<Longrightarrow> err \<noteq> after_shutdown"
      by (rule has_in_error)
    then show ?thesis
      using assms APool
      by (auto simp: add_def has_active_def has_frozen_def after_shutdown_def mce_def
               split: sum.splits bool.splits)
  next
    case (ANotPool s)
    then show ?thesis using assms by (simp add: add_def after_shutdown_def mce_def)
  qed
  show "fst (remove e p c) \<noteq> Inl after_shutdown"
    using assms toRegex_error [of p]
    by (auto simp: remove_def Let_def after_shutdown_def mce_def split: sum.splits if_splits)
  show "fst (request e p c) \<noteq> Inl after_shutdown"
    using assms get_pool_error [OF assms, of e p]
    by (auto simp: request_def Let_def after_shutdown_def mce_def split: sum.splits prod.splits)
  show "fst (shutdown e f c) \<noteq> Inl after_shutdown"
    using assms
    by (auto simp: shutdown_def after_shutdown_def mce_def split: sum.splits prod.splits)
  show "fst (closePendingConnections e f c) \<noteq> Inl after_shutdown"
    using assms
    by (auto simp: closePendingConnections_def Let_def after_shutdown_def mce_def null_access_def
             split: option.splits)
qed

lemma map_fst_settle_from: "map fst (settle_from i f xs) = xs"
  by (induction xs arbitrary: i) simp_all

lemma remove_star_resolved:
  assumes "\<not> closed c" and "remove e (PStr ''*'') c = (Inr u, c1)"
  shows "pools c1 = []"
proof (cases "pools c @ frozen c = []")
  case True
  then have "remove e (PStr ''*'') c = (Inr (), c)"
    using assms(1)
    by (simp add: remove_def Let_def isValidName_def isStr_def toRegex_star del: toRegex.simps)
  then show ?thesis using assms(2) True by simp
next
  case False
  let ?ps = "pools c @ frozen c"
  let ?results = "allSettled (pool_shutdown e) ?ps"
  have c1: "c1 = snd (remove e (PStr ''*'') c)" using assms(2) by simp
  have "filter (\<lambda>x. \<not> snd x) ?results = []"
  proof (rule ccontr)
    assume "filter (\<lambda>x. \<not> snd x) ?results \<noteq> []"
    then have "\<exists>err. fst (remove e (PStr ''*'') c) = Inl err"
      using assms(1) False
      by (auto simp: remove_def Let_def isValidName_def isStr_def toRegex_star match_everything
               simp del: toRegex.simps match.simps)
    then show False using assms(2) by simp
  qed
  then have "filter snd ?results = ?results"
    by (simp add: filter_empty_conv filter_id_conv)
  then have "map fst (filter snd ?results) = ?ps"
    by (simp add: allSettled_def map_fst_settle_from)
  then have "pools c1 = filter (\<lambda>p. p \<notin> set ?ps) (pools c)"
    unfolding c1 remove_star [OF assms(1) False] by simp
  then show ?thesis by (simp add: filter_empty_conv)
qed

section \<open>Ordered rotation over the whole active list\<close>

text \<open>
  Claim C3. In ORDER_MODE, on a cluster whose active list is \<open>P1 # others\<close>, a selection
  with no pattern returns the head \<open>P1\<close> and moves it to the tail. As many selections as
  there are active pools return the pools once each in the order of the list and leave
  the list as it was; one selection more returns \<open>P1\<close> again.
\<close>

theorem ordered_rotation:
  assumes "\<not> closed c" and "mode c = ORDER_MODE" and "pools c = P1 # others"
  shows "get_pool e PUndefined c = (Inr P1, c\<lparr>pools := others @ [P1]\<rparr>)
       \<and> selections e PUndefined (length (pools c)) c = (map Inr (pools c), c)
       \<and> selections e PUndefined (Suc (length (pools c))) c =
           (map Inr (pools c) @ [Inr P1], c\<lparr>pools := others @ [P1]\<rparr>)"
proof -
  have ne: "pools c \<noteq> []" using assms(3) by simp
  have one: "get_pool e PUndefined c = (Inr P1, c\<lparr>pools := others @ [P1]\<rparr>)"
    using get_pool_rotate [OF assms(1,2) ne, of e] assms(3) by simp
  have heads: "map (\<lambda>i. Inr (hd (rotate i (pools c)))) [0..<length (pools c)] = map Inr (pools c)"
    (is "?l = _")
  proof -
    have "?l = map Inr (map (\<lambda>i. hd (rotate i (pools c))) [0..<length (pools c)])"
      by (simp add: o_def)
    then show ?thesis by (simp only: heads_of_rotations [OF ne])
  qed
  have full: "selections e PUndefined (length (pools c)) c = (map Inr (pools c), c)"
    using selections_rotate [OF assms(1,2) ne, of e "length (pools c)"] heads by simp
  have "selections e PUndefined (Suc (length (pools c))) c =
          (map (\<lambda>i. Inr (hd (rotate i (pools c)))) [0..<Suc (length (pools c))],
           c\<lparr>pools := rotate (Suc (length (pools c))) (pools c)\<rparr>)"
    using selections_rotate [OF assms(1,2) ne] .
  moreover have "rotate (Suc (length (pools c))) (pools c) = others @ [P1]"
  proof -
    have "rotate (Suc (length (pools c))) (pools c) = rotate1 (pools c)"
      by simp
    then show ?thesis using assms(3) by simp
  qed
  moreover have "map (\<lambda>i. Inr (hd (rotate i (pools c)))) [0..<Suc (length (pools c))]
                   = map Inr (pools c) @ [Inr P1]"
  proof -
    have "hd (rotate (length (pools c)) (pools c)) = hd (pools c)"
      by simp
    then have last: "hd (rotate (length (pools c)) (pools c)) = P1"
      using assms(3) by simp
    have "map (\<lambda>i. Inr (hd (rotate i (pools c)))) [0..<Suc (length (pools c))]
            = map (\<lambda>i. Inr (hd (rotate i (pools c)))) [0..<length (pools c)]
              @ [Inr (hd (rotate (length (pools c)) (pools c)))]"
      by simp
    then show ?thesis by (simp only: heads last)
  qed
  ultimately have more: "selections e PUndefined (Suc (length (pools c))) c =
           (map Inr (pools c) @ [Inr P1], c\<lparr>pools := others @ [P1]\<rparr>)"
    by simp
  show ?thesis using one full more by blast
qed

theorem ordered_rotation_witness:
  "\<not> closed cluster_a_b_c \<and> mode cluster_a_b_c = ORDER_MODE
   \<and> pools cluster_a_b_c = pool_a # [pool_b, pool_c]
   \<and> selections env_ok PUndefined 4 cluster_a_b_c =
       ([Inr pool_a, Inr pool_b, Inr pool_c, Inr pool_a],
        cluster_a_b_c\<lparr>pools := [pool_b, pool_c, pool_a]\<rparr>)"
proof -
  have h1: "\<not> closed cluster_a_b_c" by code_simp
  have h2: "mode cluster_a_b_c = ORDER_MODE" by code_simp
  have h3: "pools cluster_a_b_c = pool_a # [pool_b, pool_c]"
    by (simp add: cluster_a_b_c_def)
  have n: "Suc (length (pools cluster_a_b_c)) = 4" by (simp add: cluster_a_b_c_def)
  show ?thesis
    using h1 h2 h3 ordered_rotation [OF h1 h2 h3, of env_ok, THEN conjunct2, THEN conjunct2]
    unfolding n by simp
qed

section \<open>Warnings set from an array\<close>

text \<open>
  Claim C10. When the array given to \<^verbatim>\<open>set.warnings\<close> starts with the strings
  \<open>pre\<close> and has a value that is no string right after them, the call throws the
  invalid-warning error and the warnings list has grown by \<open>pre\<close>: what was pushed before
  the throw stays.
\<close>

theorem set_warnings_keeps_prefix:
  assumes "\<not> closed c"
  shows "set_warnings (WArray (map JString pre @ JOther x # rest)) c =
           (Inl (mce (''Invalid warning: '' @ x)), c\<lparr>warnings := warnings c @ pre\<rparr>)
         \<and> length (warnings (snd (set_warnings (WArray (map JString pre @ JOther x # rest)) c)))
             = length (warnings c) + length pre"
proof -
  let ?ms = "map JString pre @ JOther x # rest"
  obtain m ms where ms: "?ms = m # ms" by (cases ?ms) auto
  have "set_warnings (WArray ?ms) c =
          (case push_each ?ms (warnings c) of (r, ws) \<Rightarrow> (r, c\<lparr>warnings := ws\<rparr>))"
    using assms unfolding ms by (simp add: set_warnings_def)
  then have "set_warnings (WArray ?ms) c =
          (Inl (mce (''Invalid warning: '' @ x)), c\<lparr>warnings := warnings c @ pre\<rparr>)"
    by (simp add: push_each_prefix)
  then show ?thesis by simp
qed

theorem set_warnings_keeps_prefix_witness:
  "\<not> closed (empty_cluster\<lparr>warnings := [''w0'']\<rparr>) \<and>
   set_warnings (WArray [JString ''w1'', JString ''w2'', JOther ''123'', JString ''w3''])
       (empty_cluster\<lparr>warnings := [''w0'']\<rparr>) =
     (Inl (mce ''Invalid warning: 123''), empty_cluster\<lparr>warnings := [''w0'', ''w1'', ''w2'']\<rparr>)"
  using set_warnings_keeps_prefix [of "empty_cluster\<lparr>warnings := [''w0'']\<rparr>" "[''w1'', ''w2'']" "''123''" "[JString ''w3'']"]
  by (simp add: empty_cluster_def)

section \<open>Reclaiming pending connections\<close>

text \<open>
  Claim C7. \<^verbatim>\<open>closePendingConnections\<close> without force, on the pending list \<open>ks\<close>:
  with an empty list it resolves and changes nothing; otherwise the list becomes the
  connections whose close was rejected, in their order (position \<open>i\<close> stays exactly when
  the \<open>i\<close>-th close was rejected), also when the call rejects; the call resolves when
  every close resolved, and rejects with the reason of the first rejected close in the
  order of the list.
\<close>

theorem close_pending_keeps_failures:
  assumes "\<not> closed c" and "\<not> forced f" and "ks = PendingConnections c"
  shows "(ks = [] \<longrightarrow> closePendingConnections e f c = (Inr (), c))
       \<and> snd (closePendingConnections e f c) =
           c\<lparr>PendingConnections :=
               map ((!) ks) (filter (\<lambda>i. connection_close e i (ks ! i) \<noteq> None) [0..<length ks])\<rparr>
       \<and> ((\<forall>i<length ks. connection_close e i (ks ! i) = None) \<longrightarrow>
            fst (closePendingConnections e f c) = Inr ())
       \<and> (\<forall>i m. i < length ks \<and> connection_close e i (ks ! i) = Some m \<and>
                 (\<forall>j<i. connection_close e j (ks ! j) = None) \<longrightarrow>
            fst (closePendingConnections e f c) = Inl (Error CollaboratorError m))"
proof -
  define kept where
    "kept = map ((!) ks) (filter (\<lambda>i. connection_close e i (ks ! i) \<noteq> None) [0..<length ks])"
  let ?results = "allSettled (connection_close e) (PendingConnections c)"
  have kept: "kept = map fst (filter (\<lambda>x. snd x \<noteq> None) ?results)"
    unfolding kept_def assms(3) by (rule kept_by_index [symmetric])
  have live: "ks \<noteq> [] \<Longrightarrow> closePendingConnections e f c =
           (if kept = [] then (Inr (), c\<lparr>PendingConnections := kept\<rparr>)
            else (case find_rejected ?results of
                    Some m \<Rightarrow> (Inl (Error CollaboratorError m), c\<lparr>PendingConnections := kept\<rparr>)
                  | None \<Rightarrow> (Inl null_access, c\<lparr>PendingConnections := kept\<rparr>)))"
    using closePendingConnections_live [OF assms(1,2) _ kept] assms(3) by simp
  have empty: "ks = [] \<longrightarrow> closePendingConnections e f c = (Inr (), c)"
    using assms by (simp add: closePendingConnections_def)
  have state: "snd (closePendingConnections e f c) = c\<lparr>PendingConnections := kept\<rparr>"
  proof (cases "ks = []")
    case True
    then have "kept = []" by (simp add: kept_def)
    then show ?thesis using True empty assms(3) by simp
  next
    case False
    then show ?thesis by (simp add: live split: option.split)
  qed
  have allok: "(\<forall>i<length ks. connection_close e i (ks ! i) = None) \<longrightarrow>
            fst (closePendingConnections e f c) = Inr ()"
  proof
    assume ok: "\<forall>i<length ks. connection_close e i (ks ! i) = None"
    then have k: "kept = []" by (simp add: kept_def filter_empty_conv)
    show "fst (closePendingConnections e f c) = Inr ()"
    proof (cases "ks = []")
      case True
      then show ?thesis using empty by simp
    next
      case False
      then show ?thesis by (simp add: live k)
    qed
  qed
  have first: "\<forall>i m. i < length ks \<and> connection_close e i (ks ! i) = Some m \<and>
                 (\<forall>j<i. connection_close e j (ks ! j) = None) \<longrightarrow>
            fst (closePendingConnections e f c) = Inl (Error CollaboratorError m)"
  proof (intro allI impI)
    fix i m
    assume h: "i < length ks \<and> connection_close e i (ks ! i) = Some m \<and>
                 (\<forall>j<i. connection_close e j (ks ! j) = None)"
    then have ne: "ks \<noteq> []" by auto
    have "i \<in> set (filter (\<lambda>i. connection_close e i (ks ! i) \<noteq> None) [0..<length ks])"
      using h by simp
    then have "filter (\<lambda>i. connection_close e i (ks ! i) \<noteq> None) [0..<length ks] \<noteq> []"
      by (metis empty_iff empty_set)
    then have kne: "kept \<noteq> []" unfolding kept_def by simp
    have "find_rejected ?results = Some m"
    proof (rule find_rejected_first [of i])
      show "i < length ?results" using h assms(3) by (simp add: allSettled_nth)
      show "snd (?results ! i) = Some m" using h assms(3) by (simp add: allSettled_nth)
      show "\<forall>j<i. snd (?results ! j) = None" using h assms(3) by (simp add: allSettled_nth)
    qed
    then show "fst (closePendingConnections e f c) = Inl (Error CollaboratorError m)"
      by (simp add: live [OF ne] kne)
  qed
  show ?thesis using empty state allok first unfolding kept_def by blast
qed

theorem close_pending_keeps_failures_witness:
  "\<not> closed (empty_cluster\<lparr>PendingConnections := [7, 8, 9]\<rparr>) \<and> \<not> forced (FBool False)
   \<and> closePendingConnections env_8_9_fail (FBool False)
        (empty_cluster\<lparr>PendingConnections := [7, 8, 9]\<rparr>)
      = (Inl (Error CollaboratorError ''first''), empty_cluster\<lparr>PendingConnections := [8, 9]\<rparr>)"
proof -
  let ?c = "empty_cluster\<lparr>PendingConnections := [7, 8, 9]\<rparr>"
  have h1: "\<not> closed ?c" by (simp add: empty_cluster_def)
  have h2: "\<not> forced (FBool False)" by simp
  have h3: "[7, 8, 9] = PendingConnections ?c" by simp
  note t = close_pending_keeps_failures [OF h1 h2 h3, of env_8_9_fail]
  have up: "[0..<length [7, 8, 9 :: nat]] = [0, 1, 2]"
    by (simp add: upt_conv_Cons)
  have "snd (closePendingConnections env_8_9_fail (FBool False) ?c) =
          ?c\<lparr>PendingConnections := [8, 9]\<rparr>"
    using t [THEN conjunct2, THEN conjunct1] unfolding up
    by (simp add: env_8_9_fail_def)
  moreover have "fst (closePendingConnections env_8_9_fail (FBool False) ?c) =
          Inl (Error CollaboratorError ''first'')"
    using t [THEN conjunct2, THEN conjunct2, THEN conjunct2, rule_format, of 1 "''first''"]
    by (simp add: env_8_9_fail_def)
  ultimately have "closePendingConnections env_8_9_fail (FBool False) ?c =
      (Inl (Error CollaboratorError ''first''), ?c\<lparr>PendingConnections := [8, 9]\<rparr>)"
    by (simp add: prod_eq_iff)
  then show ?thesis using h1 h2 by simp
qed

section \<open>A failure event with a failing logger\<close>

text \<open>
  Claim C8. One run of a failure handler, on a cluster with a logger whose write of the
  warning is rejected, returns normally and appends two warnings: the warning of the
  event, then the warning that the log could not be written. A cluster that had no
  warning has exactly two.
\<close>

theorem logger_failure_two_warnings:
  assumes "\<not> closed c" and "logger c = Some l"
    and "logger_log e l (warning_text ev (name p)) = Some err"
  shows "fst (on_event e ev p c) = Inr ()
       \<and> warnings (snd (on_event e ev p c)) =
           warnings c @ [warning_text ev (name p), ''Failed to write log: '' @ err]
       \<and> (warnings c = [] \<longrightarrow> length (warnings (snd (on_event e ev p c))) = 2)"
  using assms by (cases ev) (simp_all add: on_event_def log_def)

theorem logger_failure_two_warnings_witness:
  "\<not> closed (empty_cluster\<lparr>logger := Some 1\<rparr>) \<and> logger (empty_cluster\<lparr>logger := Some 1\<rparr>) = Some 1
   \<and> logger_log env_log_fails 1 (warning_text CREATE_FAIL (name \<lparr>pid = 1, name = ''main''\<rparr>)) = Some ''disk full''
   \<and> on_event env_log_fails CREATE_FAIL \<lparr>pid = 1, name = ''main''\<rparr> (empty_cluster\<lparr>logger := Some 1\<rparr>)
     = (Inr (), empty_cluster\<lparr>logger := Some 1,
            warnings := [''Creating connection failed in: main'', ''Failed to write log: disk full'']\<rparr>)"
  using logger_failure_two_warnings [of "empty_cluster\<lparr>logger := Some 1\<rparr>" 1 env_log_fails CREATE_FAIL
      "\<lparr>pid = 1, name = ''main''\<rparr>" "''disk full''"]
  by (simp add: empty_cluster_def env_log_fails_def on_event_def log_def)

section \<open>Shutdown that fails\<close>

text \<open>
  Claim C6. On a live cluster, when \<^verbatim>\<open>remove('*')\<close> rejects, \<^verbatim>\<open>shutdown\<close>
  rejects with a ShutdownError that carries the message of that rejection, and the
  cluster is the one \<^verbatim>\<open>remove\<close> left: the cluster before the call after the
  handler runs of the awaited shutdowns, without the active pools that shut down. When
  \<^verbatim>\<open>remove('*')\<close> resolves (the active list is then empty) and
  \<^verbatim>\<open>closePendingConnections(force)\<close> rejects, \<^verbatim>\<open>shutdown\<close> rejects in the
  same way and the cluster is the one the two steps left. In both cases the cluster stays
  live: the logger, the mode and the frozen list are as before, the warnings and the
  pending connections that existed before the call or were pushed by the handlers are
  kept where the steps left them, nothing is set to null, and \<^verbatim>\<open>add\<close>,
  \<^verbatim>\<open>remove\<close>, \<^verbatim>\<open>request\<close>, \<^verbatim>\<open>shutdown\<close> and
  \<^verbatim>\<open>closePendingConnections\<close> never answer with the after-shutdown error, so
  \<^verbatim>\<open>shutdown\<close> can be called again.
\<close>

theorem shutdown_failure_stays_live:
  assumes "\<not> closed c"
  shows "(\<forall>err c1. remove e (PStr ''*'') c = (Inl err, c1) \<longrightarrow>
            shutdown e f c = (Inl (Error ShutdownError (message err)), c1)
            \<and> c1 = (emit_all e (shutdown_events e (pools c @ frozen c)) c)
                     \<lparr>pools := filter (\<lambda>p. p \<notin> set (map fst (filter snd
                          (allSettled (pool_shutdown e) (pools c @ frozen c))))) (pools c)\<rparr>
            \<and> \<not> closed c1 \<and> logger c1 = logger c \<and> mode c1 = mode c \<and> frozen c1 = frozen c
            \<and> (\<exists>ws. warnings c1 = warnings c @ ws)
            \<and> (\<exists>ks. PendingConnections c1 = PendingConnections c @ ks)
            \<and> (\<forall>a. fst (add a c1) \<noteq> Inl after_shutdown)
            \<and> (\<forall>e' p. fst (remove e' p c1) \<noteq> Inl after_shutdown)
            \<and> (\<forall>e' p. fst (request e' p c1) \<noteq> Inl after_shutdown)
            \<and> (\<forall>e' f'. fst (shutdown e' f' c1) \<noteq> Inl after_shutdown)
            \<and> (\<forall>e' f'. fst (closePendingConnections e' f' c1) \<noteq> Inl after_shutdown))
       \<and> (\<forall>c1 err c2. remove e (PStr ''*'') c = (Inr (), c1)
                     \<and> closePendingConnections e f c1 = (Inl err, c2) \<longrightarrow>
            shutdown e f c = (Inl (Error ShutdownError (message err)), c2)
            \<and> pools c1 = []
            \<and> c2 = c1\<lparr>PendingConnections := PendingConnections c2\<rparr>
            \<and> \<not> closed c2 \<and> logger c2 = logger c \<and> mode c2 = mode c \<and> frozen c2 = frozen c
            \<and> (\<exists>ws. warnings c2 = warnings c @ ws)
            \<and> (\<exists>ks. PendingConnections c1 = PendingConnections c @ ks)
            \<and> (\<forall>a. fst (add a c2) \<noteq> Inl after_shutdown)
            \<and> (\<forall>e' p. fst (remove e' p c2) \<noteq> Inl after_shutdown)
            \<and> (\<forall>e' p. fst (request e' p c2) \<noteq> Inl after_shutdown)
            \<and> (\<forall>e' f'. fst (shutdown e' f' c2) \<noteq> Inl after_shutdown)
            \<and> (\<forall>e' f'. fst (closePendingConnections e' f' c2) \<noteq> Inl after_shutdown))"
proof (intro conjI allI impI)
  fix err c1
  assume r: "remove e (PStr ''*'') c = (Inl err, c1)"
  have c1: "c1 = snd (remove e (PStr ''*'') c)" using r by simp
  show "shutdown e f c = (Inl (Error ShutdownError (message err)), c1)"
    using assms r by (simp add: shutdown_def)
  have ne: "pools c @ frozen c \<noteq> []"
  proof
    assume "pools c @ frozen c = []"
    then have "remove e (PStr ''*'') c = (Inr (), c)"
      using assms
      by (simp add: remove_def Let_def isValidName_def isStr_def toRegex_star
            del: toRegex.simps)
    then show False using r by simp
  qed
  show "c1 = (emit_all e (shutdown_events e (pools c @ frozen c)) c)
               \<lparr>pools := filter (\<lambda>p. p \<notin> set (map fst (filter snd
                    (allSettled (pool_shutdown e) (pools c @ frozen c))))) (pools c)\<rparr>"
    unfolding c1 by (rule remove_star [OF assms ne])
  show live: "\<not> closed c1" using assms by (simp add: c1 remove_fields)
  show "logger c1 = logger c" "mode c1 = mode c" "frozen c1 = frozen c"
    by (simp_all add: c1 remove_fields)
  show "\<exists>ws. warnings c1 = warnings c @ ws" unfolding c1 by (rule remove_grows)
  show "\<exists>ks. PendingConnections c1 = PendingConnections c @ ks"
    unfolding c1 by (rule remove_grows)
  show "\<And>a. fst (add a c1) \<noteq> Inl after_shutdown"
    and "\<And>e' p. fst (remove e' p c1) \<noteq> Inl after_shutdown"
    and "\<And>e' p. fst (request e' p c1) \<noteq> Inl after_shutdown"
    and "\<And>e' f'. fst (shutdown e' f' c1) \<noteq> Inl after_shutdown"
    and "\<And>e' f'. fst (closePendingConnections e' f' c1) \<noteq> Inl after_shutdown"
    by (rule live_methods_not_replaced [OF live])+
next
  fix c1 err c2
  assume h: "remove e (PStr ''*'') c = (Inr (), c1)
               \<and> closePendingConnections e f c1 = (Inl err, c2)"
  have c1: "c1 = snd (remove e (PStr ''*'') c)" using h by simp
  have c2: "c2 = snd (closePendingConnections e f c1)" using h by simp
  show "shutdown e f c = (Inl (Error ShutdownError (message err)), c2)"
    using assms h by (simp add: shutdown_def)
  show "pools c1 = []"
    using remove_star_resolved [OF assms, of e "()" c1] h by simp
  show f2: "c2 = c1\<lparr>PendingConnections := PendingConnections c2\<rparr>"
    using closePendingConnections_frame [of e f c1] h by simp
  have same: "closed c2 = closed c1" "logger c2 = logger c1" "mode c2 = mode c1"
    "frozen c2 = frozen c1" "warnings c2 = warnings c1"
    by (subst f2, simp)+
  show live: "\<not> closed c2" using assms by (simp add: same c1 remove_fields)
  show "logger c2 = logger c" "mode c2 = mode c" "frozen c2 = frozen c"
    by (simp_all add: same c1 remove_fields)
  show "\<exists>ws. warnings c2 = warnings c @ ws"
    unfolding same c1 by (rule remove_grows)
  show "\<exists>ks. PendingConnections c1 = PendingConnections c @ ks"
    unfolding c1 by (rule remove_grows)
  show "\<And>a. fst (add a c2) \<noteq> Inl after_shutdown"
    and "\<And>e' p. fst (remove e' p c2) \<noteq> Inl after_shutdown"
    and "\<And>e' p. fst (request e' p c2) \<noteq> Inl after_shutdown"
    and "\<And>e' f'. fst (shutdown e' f' c2) \<noteq> Inl after_shutdown"
    and "\<And>e' f'. fst (closePendingConnections e' f' c2) \<noteq> Inl after_shutdown"
    by (rule live_methods_not_replaced [OF live])+
qed

theorem shutdown_failure_stays_live_witness:
  "\<not> closed cluster_a_b
   \<and> remove env_b_fails (PStr ''*'') cluster_a_b =
       (Inl (mce ''Shutdown fail in: b''),
        cluster_a_b\<lparr>warnings := [''Shutdown failed in: b''], pools := [pool_b]\<rparr>)
   \<and> shutdown env_b_fails FOther cluster_a_b =
       (Inl (Error ShutdownError ''Shutdown fail in: b''),
        cluster_a_b\<lparr>warnings := [''Shutdown failed in: b''], pools := [pool_b]\<rparr>)
   \<and> \<not> closed (cluster_a_b\<lparr>warnings := [''Shutdown failed in: b''], pools := [pool_b]\<rparr>)
   \<and> PendingConnections cluster_a_b = []
   \<and> remove env_close_fails (PStr ''*'') cluster_a_b = (Inr (), cluster_after_remove)
   \<and> closePendingConnections env_close_fails FOther cluster_after_remove =
       (Inl (Error CollaboratorError ''Ops''), cluster_after_remove)
   \<and> shutdown env_close_fails FOther cluster_a_b =
       (Inl (Error ShutdownError ''Ops''), cluster_after_remove)
   \<and> \<not> closed cluster_after_remove
   \<and> fst (shutdown env_ok FOther cluster_after_remove) = Inr ()"
proof -
  have h: "\<not> closed cluster_a_b" by code_simp
  have r1: "remove env_b_fails (PStr ''*'') cluster_a_b =
              (Inl (mce ''Shutdown fail in: b''),
               cluster_a_b\<lparr>warnings := [''Shutdown failed in: b''], pools := [pool_b]\<rparr>)"
    by code_simp
  note t1 = shutdown_failure_stays_live [OF h, of env_b_fails FOther, THEN conjunct1,
              rule_format, OF r1]
  have s1: "shutdown env_b_fails FOther cluster_a_b =
       (Inl (Error ShutdownError ''Shutdown fail in: b''),
        cluster_a_b\<lparr>warnings := [''Shutdown failed in: b''], pools := [pool_b]\<rparr>)"
    using t1 [THEN conjunct1] by (simp add: mce_def)
  have l1: "\<not> closed (cluster_a_b\<lparr>warnings := [''Shutdown failed in: b''], pools := [pool_b]\<rparr>)"
    by (rule t1 [THEN conjunct2, THEN conjunct2, THEN conjunct1])
  have p: "PendingConnections cluster_a_b = []" by code_simp
  have r2: "remove env_close_fails (PStr ''*'') cluster_a_b = (Inr (), cluster_after_remove)"
    by code_simp
  have k2: "closePendingConnections env_close_fails FOther cluster_after_remove =
              (Inl (Error CollaboratorError ''Ops''), cluster_after_remove)"
    by code_simp
  note t2 = shutdown_failure_stays_live [OF h, of env_close_fails FOther, THEN conjunct2,
              rule_format, OF conjI [OF r2 k2]]
  have s2: "shutdown env_close_fails FOther cluster_a_b =
       (Inl (Error ShutdownError ''Ops''), cluster_after_remove)"
    using t2 [THEN conjunct1] by simp
  have l2: "\<not> closed cluster_after_remove"
    by (rule t2 [THEN conjunct2, THEN conjunct2, THEN conjunct2, THEN conjunct1])
  have again: "fst (shutdown env_ok FOther cluster_after_remove) = Inr ()" by code_simp
  show ?thesis using h r1 s1 l1 p r2 k2 s2 l2 again by blast
qed

section \<open>Shutdown that succeeds\<close>

text \<open>
  Claim C5. When \<^verbatim>\<open>shutdown\<close> resolves, the cluster was live before and is shut
  down after; from then on \<^verbatim>\<open>add\<close> throws and \<^verbatim>\<open>remove\<close>, \<^verbatim>\<open>request\<close>,
  \<^verbatim>\<open>shutdown\<close> and \<^verbatim>\<open>closePendingConnections\<close> reject, each with the
  after-shutdown error and whatever the arguments and the collaborators; and the cluster
  stays shut down under every sequence of calls, so the transition is made once and is
  never undone.
\<close>

theorem shutdown_is_terminal:
  assumes "shutdown e f c = (Inr (), c')"
  shows "\<not> closed c \<and> closed c'
       \<and> (\<forall>a. add a c' = (Inl after_shutdown, c'))
       \<and> (\<forall>e' a. remove e' a c' = (Inl after_shutdown, c'))
       \<and> (\<forall>e' a. request e' a c' = (Inl after_shutdown, c'))
       \<and> (\<forall>e' f'. shutdown e' f' c' = (Inl after_shutdown, c'))
       \<and> (\<forall>e' f'. closePendingConnections e' f' c' = (Inl after_shutdown, c'))
       \<and> (\<forall>ks. closed (run ks c'))"
proof -
  have live: "\<not> closed c"
    using assms by (auto simp: shutdown_def)
  have "c' = nullify (snd (closePendingConnections e f (snd (remove e (PStr ''*'') c))))"
    using assms live by (auto simp: shutdown_def split: prod.splits sum.splits)
  then have cl: "closed c'" by (simp add: nullify_def)
  show ?thesis
    using live cl run_closed [OF cl]
    by (simp add: add_def remove_def request_def shutdown_def closePendingConnections_def)
qed

theorem shutdown_is_terminal_witness:
  "shutdown env_ok FOther cluster_a_b = (Inr (), nullify (cluster_a_b\<lparr>pools := []\<rparr>))
   \<and> closed (nullify (cluster_a_b\<lparr>pools := []\<rparr>))
   \<and> add (APool pool_a) (nullify (cluster_a_b\<lparr>pools := []\<rparr>)) =
       (Inl after_shutdown, nullify (cluster_a_b\<lparr>pools := []\<rparr>))
   \<and> shutdown env_ok (FBool True) (nullify (cluster_a_b\<lparr>pools := []\<rparr>)) =
       (Inl after_shutdown, nullify (cluster_a_b\<lparr>pools := []\<rparr>))
   \<and> closed (run [(env_ok, Unfreeze (PStr ''a'')), (env_ok, SetMode (AMode RANDOM_MODE)),
                  (env_ok, Shutdown FOther)]
               (nullify (cluster_a_b\<lparr>pools := []\<rparr>)))"
proof -
  have s: "shutdown env_ok FOther cluster_a_b = (Inr (), nullify (cluster_a_b\<lparr>pools := []\<rparr>))"
    by code_simp
  note t = shutdown_is_terminal [OF s]
  show ?thesis using s t by blast
qed

section \<open>From a wildcard string to a test on names\<close>

text \<open>
  Claim C9. For a string, the regular expression is built from the string with its
  leftmost star replaced by \<^verbatim>\<open>.*\<close>: a string without a star is taken as it is, and
  in \<open>xs @ ''*'' @ ys\<close> with no star in \<open>xs\<close> the stars of \<open>ys\<close> stay as they are.
  \<^verbatim>\<open>match\<close> keeps exactly the pools whose name passes the test of the expression.
  The test is unanchored (a name passes exactly when some stretch of it is matched by the
  expression as a whole, so a name that passes still passes with anything before and after
  it) and compares characters as they are (a one-character expression passes exactly on
  the names that contain that character; \<^verbatim>\<open>ASIA\<close> does not match
  \<^verbatim>\<open>asia_1\<close>). With two stars the second one is a quantifier:
  \<^verbatim>\<open>a*b*c\<close> becomes \<^verbatim>\<open>a.*b*c\<close>, which matches \<^verbatim>\<open>ac\<close>, a name the plain
  wildcard reading rejects; and \<^verbatim>\<open>a**\<close> is no regular expression at all.
\<close>

theorem pattern_matching:
  "toRegex (PStr s) = RegExp_new (replace_star s)
   \<and> (CHR ''*'' \<notin> set s \<longrightarrow> replace_star s = s)
   \<and> (CHR ''*'' \<notin> set xs \<longrightarrow> replace_star (xs @ CHR ''*'' # ys) = xs @ ''.*'' @ ys)
   \<and> match r ps = filter (\<lambda>p. rx_test r (name p)) ps
   \<and> rx_test r n = (\<exists>before middle after. n = before @ middle @ after \<and> middle \<in> lang r)
   \<and> (rx_test r n \<longrightarrow> rx_test r (pre @ n @ post))
   \<and> rx_test (Chr c) n = (c \<in> set n)
   \<and> has_in [\<lparr>pid = 1, name = ''asia_1''\<rparr>] (PStr ''ASIA'') = Inr False
   \<and> toRegex (PStr ''a*b*c'') =
       Inr (Seq (Chr CHR ''a'') (Seq (Star Dot) (Seq (Star (Chr CHR ''b'')) (Chr CHR ''c''))))
   \<and> has_in [\<lparr>pid = 1, name = ''ac''\<rparr>] (PStr ''a*b*c'') = Inr True
   \<and> \<not> plain_wildcard ''a*b*c'' ''ac''
   \<and> plain_wildcard ''a*b*c'' ''a_b_c''
   \<and> toRegex (PStr ''a**'') = Inl nothing_to_repeat"
proof -
  have e1: "has_in [\<lparr>pid = 1, name = ''asia_1''\<rparr>] (PStr ''ASIA'') = Inr False" by code_simp
  have e2: "toRegex (PStr ''a*b*c'') =
       Inr (Seq (Chr CHR ''a'') (Seq (Star Dot) (Seq (Star (Chr CHR ''b'')) (Chr CHR ''c''))))"
    by code_simp
  have e3: "has_in [\<lparr>pid = 1, name = ''ac''\<rparr>] (PStr ''a*b*c'') = Inr True" by code_simp
  have e4: "\<not> plain_wildcard ''a*b*c'' ''ac''" by code_simp
  have e5: "plain_wildcard ''a*b*c'' ''a_b_c''" by code_simp
  have e6: "toRegex (PStr ''a**'') = Inl nothing_to_repeat" by code_simp
  show ?thesis
    using e1 e2 e3 e4 e5 e6
    using rx_test_lang [of r n]
    by (simp add: replace_star_none replace_star_first match_filter rx_test_unanchored
          rx_test_Chr del: rx_test.simps)
qed

theorem pattern_matching_witness:
  "CHR ''*'' \<notin> set ''main'' \<and> replace_star ''main'' = ''main''
   \<and> CHR ''*'' \<notin> set ''asia_'' \<and> replace_star (''asia_'' @ CHR ''*'' # ''_*'') = ''asia_'' @ ''.*'' @ ''_*''
   \<and> rx_test (Chr CHR ''s'') ''s'' \<and> rx_test (Chr CHR ''s'') (''a'' @ ''s'' @ ''ia'')"
proof -
  note t = pattern_matching [of "''main''" "''asia_''" "''_*''" "Chr CHR ''s''" "[]" "''s''" "''a''" "''ia''" "CHR ''s''"]
  have h1: "CHR ''*'' \<notin> set ''main''" by simp
  have h2: "CHR ''*'' \<notin> set ''asia_''" by simp
  have h3: "rx_test (Chr CHR ''s'') ''s''" by simp
  from t have a: "replace_star ''main'' = ''main''" using h1 by blast
  from t have b: "replace_star (''asia_'' @ CHR ''*'' # ''_*'') = ''asia_'' @ ''.*'' @ ''_*''"
    using h2 by blast
  from t have c: "rx_test (Chr CHR ''s'') (''a'' @ ''s'' @ ''ia'')" using h3 by blast
  show ?thesis using h1 h2 h3 a b c by blast
qed

section \<open>Ordered rotation inside a matched group\<close>

text \<open>
  Claim C4. In ORDER_MODE, when the name or pattern matches two or more active pools, the
  selection returns the first match \<open>sel\<close>, and the new active list is the old one
  without the pools named like \<open>sel\<close>, followed by \<open>sel\<close>. With pairwise different names
  in the active list, that is the old list with \<open>sel\<close> taken out of its place and put at
  the end. In every case the pools that the pattern does not match keep their relative
  order, and no other field of the cluster changes. On the cluster of \<^verbatim>\<open>asia_1\<close>
  and \<^verbatim>\<open>asia_2\<close>, three selections with \<^verbatim>\<open>asia_*\<close> return \<^verbatim>\<open>asia_1\<close>,
  \<^verbatim>\<open>asia_2\<close>, \<^verbatim>\<open>asia_1\<close>.
\<close>

theorem group_rotation:
  assumes "\<not> closed c" and "mode c = ORDER_MODE" and "isValidName a"
    and "toRegex a = Inr r" and "match r (pools c) = sel # nxt # rest"
  shows "fst (get_pool e a c) = Inr sel
       \<and> sel \<in> set (pools c)
       \<and> pools (snd (get_pool e a c)) =
           filter (\<lambda>q. name q \<noteq> name sel) (pools c) @ [sel]
       \<and> (distinct (map name (pools c)) \<longrightarrow>
            pools (snd (get_pool e a c)) = remove1 sel (pools c) @ [sel])
       \<and> filter (\<lambda>q. \<not> rx_test r (name q)) (pools (snd (get_pool e a c))) =
           filter (\<lambda>q. \<not> rx_test r (name q)) (pools c)
       \<and> snd (get_pool e a c) = c\<lparr>pools := pools (snd (get_pool e a c))\<rparr>
       \<and> selections env_ok (PStr ''asia_*'') 3 cluster_asia =
           ([Inr asia_1, Inr asia_2, Inr asia_1], cluster_asia\<lparr>pools := [asia_2, asia_1]\<rparr>)"
proof -
  note g = get_pool_group [OF assms, of e]
  have "sel \<in> set (match r (pools c))" using assms(5) by simp
  then have sel: "sel \<in> set (pools c)" "rx_test r (name sel)"
    by (simp_all add: match_filter)
  have dist: "distinct (map name (pools c)) \<longrightarrow>
            pools (snd (get_pool e a c)) = remove1 sel (pools c) @ [sel]"
    using g sel(1) by (simp add: filter_name_remove1)
  have "filter (\<lambda>q. \<not> rx_test r (name q)) (filter (\<lambda>q. name sel \<noteq> name q) (pools c)) =
          filter (\<lambda>q. \<not> rx_test r (name q)) (pools c)"
    unfolding filter_filter using sel(2) by (intro filter_cong refl) auto
  then have frame: "filter (\<lambda>q. \<not> rx_test r (name q)) (pools (snd (get_pool e a c))) =
           filter (\<lambda>q. \<not> rx_test r (name q)) (pools c)"
    using g sel(2) by simp
  have ex: "selections env_ok (PStr ''asia_*'') 3 cluster_asia =
           ([Inr asia_1, Inr asia_2, Inr asia_1], cluster_asia\<lparr>pools := [asia_2, asia_1]\<rparr>)"
    by code_simp
  have same: "(\<lambda>q. name sel \<noteq> name q) = (\<lambda>q. name q \<noteq> name sel)" by auto
  have shape: "pools (snd (get_pool e a c)) =
           filter (\<lambda>q. name q \<noteq> name sel) (pools c) @ [sel]"
    using g by (simp add: same)
  show ?thesis using g sel(1) shape dist frame ex by simp
qed

theorem group_rotation_witness:
  "\<not> closed cluster_groups \<and> mode cluster_groups = ORDER_MODE \<and> isValidName (PStr ''asia_*'')
   \<and> toRegex (PStr ''asia_*'') = Inr asia_regex
   \<and> match asia_regex (pools cluster_groups) = asia_1 # asia_2 # []
   \<and> distinct (map name (pools cluster_groups))
   \<and> get_pool env_ok (PStr ''asia_*'') cluster_groups =
       (Inr asia_1, cluster_groups\<lparr>pools := [pool_a, asia_2, pool_b, asia_1]\<rparr>)"
proof -
  have h1: "\<not> closed cluster_groups" by code_simp
  have h2: "mode cluster_groups = ORDER_MODE" by code_simp
  have h3: "isValidName (PStr ''asia_*'')" by code_simp
  have h4: "toRegex (PStr ''asia_*'') = Inr asia_regex" by code_simp
  have h5: "match asia_regex (pools cluster_groups) = asia_1 # asia_2 # []" by code_simp
  have h6: "distinct (map name (pools cluster_groups))" by code_simp
  note t = group_rotation [OF h1 h2 h3 h4 h5, of env_ok]
  have r: "remove1 asia_1 (pools cluster_groups) @ [asia_1] = [pool_a, asia_2, pool_b, asia_1]"
    by code_simp
  have f: "fst (get_pool env_ok (PStr ''asia_*'') cluster_groups) = Inr asia_1"
    by (rule t [THEN conjunct1])
  have "pools (snd (get_pool env_ok (PStr ''asia_*'') cluster_groups)) =
          remove1 asia_1 (pools cluster_groups) @ [asia_1]"
    by (rule t [THEN conjunct2, THEN conjunct2, THEN conjunct2, THEN conjunct1, THEN mp, OF h6])
  then have p: "pools (snd (get_pool env_ok (PStr ''asia_*'') cluster_groups)) =
             [pool_a, asia_2, pool_b, asia_1]"
    by (simp only: r)
  have "snd (get_pool env_ok (PStr ''asia_*'') cluster_groups) =
          cluster_groups\<lparr>pools := pools (snd (get_pool env_ok (PStr ''asia_*'') cluster_groups))\<rparr>"
    by (rule t [THEN conjunct2, THEN conjunct2, THEN conjunct2, THEN conjunct2, THEN conjunct2,
                THEN conjunct1])
  then have s: "snd (get_pool env_ok (PStr ''asia_*'') cluster_groups) =
             cluster_groups\<lparr>pools := [pool_a, asia_2, pool_b, asia_1]\<rparr>"
    by (simp only: p)
  have "get_pool env_ok (PStr ''asia_*'') cluster_groups =
       (Inr asia_1, cluster_groups\<lparr>pools := [pool_a, asia_2, pool_b, asia_1]\<rparr>)"
    using s f by (simp add: prod_eq_iff)
  then show ?thesis using h1 h2 h3 h4 h5 h6 by simp
qed

section \<open>Removal of a frozen pool\<close>

text \<open>
  Claim C1, which says that a matched pool whose shutdown succeeded is in neither list
  afterwards. The source filters the active list only. On the cluster with \<^verbatim>\<open>a\<close>
  and \<^verbatim>\<open>b\<close>: after \<^verbatim>\<open>freeze('a')\<close>, the call \<^verbatim>\<open>remove('a')\<close> shuts the pool
  down, resolves, and leaves the cluster as it was; the pool is still in the frozen list,
  \<^verbatim>\<open>has.frozen('a')\<close> is true, and \<^verbatim>\<open>unfreeze('a')\<close> puts the pool that was
  shut down back into the active list.
\<close>

theorem remove_leaves_frozen_pool:
  "freeze (PStr ''a'') cluster_a_b = (Inr (), cluster_a_frozen)
   \<and> remove env_ok (PStr ''a'') cluster_a_frozen = (Inr (), cluster_a_frozen)
   \<and> frozen cluster_a_frozen = [pool_a]
   \<and> has_frozen (PStr ''a'') (snd (remove env_ok (PStr ''a'') cluster_a_frozen)) = Inr True
   \<and> unfreeze (PStr ''a'') (snd (remove env_ok (PStr ''a'') cluster_a_frozen)) =
       (Inr (), cluster_a_frozen\<lparr>pools := [pool_b, pool_a], frozen := []\<rparr>)"
  by code_simp

section \<open>Uniqueness of names in add\<close>

text \<open>
  Claim C2, which says that \<^verbatim>\<open>add\<close> throws the conflict error exactly when a
  registered pool has the same name. The source asks \<^verbatim>\<open>has.active\<close> and
  \<^verbatim>\<open>has.frozen\<close>, which read the name as a pattern. So the pool \<^verbatim>\<open>asia\<close> is
  refused on a cluster that holds \<^verbatim>\<open>asia_1\<close> and \<^verbatim>\<open>asia_2\<close> only; a second pool
  named \<^verbatim>\<open>a+b\<close> is accepted next to the first, since the expression
  \<^verbatim>\<open>a+b\<close> does not match the name \<^verbatim>\<open>a+b\<close>; and a pool named \<^verbatim>\<open>a**\<close>
  is refused on the empty cluster with a SyntaxError. Each refused call leaves the
  cluster as it was.
\<close>

theorem add_conflict_is_a_regex_test:
  "name asia_1 \<noteq> ''asia''
   \<and> add (APool \<lparr>pid = 13, name = ''asia''\<rparr>) cluster_asia =
       (Inl (mce ''Pool names must be unique: asia''), cluster_asia)
   \<and> add (APool plus_1) empty_cluster = (Inr (), empty_cluster\<lparr>pools := [plus_1]\<rparr>)
   \<and> name plus_2 = name plus_1
   \<and> add (APool plus_2) (empty_cluster\<lparr>pools := [plus_1]\<rparr>) =
       (Inr (), empty_cluster\<lparr>pools := [plus_1, plus_2]\<rparr>)
   \<and> add (APool \<lparr>pid = 14, name = ''a**''\<rparr>) empty_cluster = (Inl nothing_to_repeat, empty_cluster)"
  by code_simp

end
